theory Spec2Isabelle
  imports Complex_Main
begin

section \<open>JavaScript values used by script.js\<close>

text \<open>
  Strings are lists of characters (code units up to 0xFF; the larger code units of
  JavaScript strings are outside this model).  White space is what both
  \<^verbatim>\<open>String.prototype.trim\<close> and the regular-expression class \<^verbatim>\<open>\s\<close> accept
  in that range: TAB, LF, VT, FF, CR, SPACE and NBSP.
\<close>

definition is_space :: "char \<Rightarrow> bool" where
  "is_space c = (c \<in> {CHR 0x09, CHR 0x0A, CHR 0x0B, CHR 0x0C, CHR 0x0D, CHR 0x20, CHR 0xA0})"

definition non_space :: "char \<Rightarrow> bool" where
  "non_space c = (\<not> is_space c)"

definition trim :: "string \<Rightarrow> string" where
  "trim s = rev (dropWhile is_space (rev (dropWhile is_space s)))"

definition startsWith :: "string \<Rightarrow> string \<Rightarrow> bool" where
  "startsWith s p = (take (length p) s = p)"

text \<open>\<^verbatim>\<open>text.split(/\r?\n/)\<close>: a line ends at LF or at CR LF; a CR that is not
  followed by LF stays in its line.  The first argument collects the current
  line in reverse.\<close>

fun split_from :: "string \<Rightarrow> string \<Rightarrow> string list" where
  "split_from cur [] = [rev cur]"
| "split_from cur [c] = (if c = CHR 0x0A then [rev cur, []] else [rev (c # cur)])"
| "split_from cur (c # c' # cs) =
     (if c = CHR 0x0D \<and> c' = CHR 0x0A then rev cur # split_from [] cs
      else if c = CHR 0x0A then rev cur # split_from [] (c' # cs)
      else split_from (c # cur) (c' # cs))"

definition split_lines :: "string \<Rightarrow> string list" where
  "split_lines text = split_from [] text"

text \<open>
  Property lookup \<^verbatim>\<open>obj[key]\<close> on an object created by \<^verbatim>\<open>{}\<close>: an own property,
  or else a property inherited from \<^verbatim>\<open>Object.prototype\<close> (always a function or
  an object, hence truthy), or else \<^verbatim>\<open>undefined\<close>.  Own properties are kept in
  creation order.
\<close>

definition object_prototype_keys :: "string list" where
  "object_prototype_keys =
     [''constructor'', ''hasOwnProperty'', ''isPrototypeOf'', ''propertyIsEnumerable'',
      ''toLocaleString'', ''toString'', ''valueOf'', ''__proto__'',
      ''__defineGetter__'', ''__defineSetter__'', ''__lookupGetter__'', ''__lookupSetter__'']"

datatype 'a property = Own 'a | Inherited | Undefined

definition lookup :: "(string \<times> 'a) list \<Rightarrow> string \<Rightarrow> 'a property" where
  "lookup obj k =
     (case map_of obj k of
        Some v \<Rightarrow> Own v
      | None \<Rightarrow> if k \<in> set object_prototype_keys then Inherited else Undefined)"

definition truthy :: "'a property \<Rightarrow> bool" where
  "truthy p = (case p of Undefined \<Rightarrow> False | _ \<Rightarrow> True)"

text \<open>
  \<^verbatim>\<open>Object.keys\<close> lists the own keys that are array indices (canonical decimal
  numerals below \<open>2^32 - 1\<close>) first, in ascending numeric order, and the other
  keys after them in creation order.
\<close>

definition is_digit :: "char \<Rightarrow> bool" where
  "is_digit c = (c \<in> set ''0123456789'')"

definition index_val :: "string \<Rightarrow> nat" where
  "index_val s = foldl (\<lambda>n c. 10 * n + (of_char c - 48)) 0 s"

definition is_array_index :: "string \<Rightarrow> bool" where
  "is_array_index s =
     (s \<noteq> [] \<and> list_all is_digit s \<and> (hd s \<noteq> CHR ''0'' \<or> s = ''0'') \<and> index_val s < 4294967295)"

definition object_keys :: "(string \<times> 'a) list \<Rightarrow> string list" where
  "object_keys obj =
     (let ks = map fst obj
      in sort_key index_val (filter is_array_index ks) @ filter (\<lambda>k. \<not> is_array_index k) ks)"

datatype exn = RangeError | TypeError

section \<open>Data model\<close>

record node =
  node_id :: string
  title :: string
  children :: "string list"

record edge =
  from_id :: string
  to_id :: string
  line :: nat

type_synonym node_table = "(string \<times> node) list"

record model =
  nodes :: node_table
  edges :: "edge list"
  root_id :: string

datatype parse_error =
    BadNodeSyntax nat
  | DuplicateNodeId nat string
  | BadEdgeSyntax nat
  | UnknownDirective nat
  | UnknownNodeFrom nat string
  | UnknownNodeTo nat string
  | NoNodesDefined

datatype 'a outcome = Ok 'a | Error parse_error | Throws exn

section \<open>parse\<close>

text \<open>\<^verbatim>\<open>/^node\s+(\S+)\s+"([^"]*)"?$/\<close>.  Every quantifier of the expression is
  followed by a character class disjoint from its own, so the greedy match is the
  only one: maximal runs of white space, of non-space and of non-quote characters.\<close>

definition match_node :: "string \<Rightarrow> (string \<times> string) option" where
  "match_node l =
     (if take 4 l \<noteq> ''node'' then None
      else let r0 = drop 4 l;
               ws1 = takeWhile is_space r0; r1 = dropWhile is_space r0;
               i = takeWhile non_space r1; r2 = dropWhile non_space r1;
               ws2 = takeWhile is_space r2; r3 = dropWhile is_space r2
           in if ws1 = [] \<or> i = [] \<or> ws2 = [] then None
              else case r3 of
                     [] \<Rightarrow> None
                   | q # r4 \<Rightarrow>
                       if q \<noteq> CHR 0x22 then None
                       else let t = takeWhile (\<lambda>c. c \<noteq> CHR 0x22) r4;
                                r5 = dropWhile (\<lambda>c. c \<noteq> CHR 0x22) r4
                            in if r5 = [] \<or> r5 = [CHR 0x22] then Some (i, t) else None)"

text \<open>\<^verbatim>\<open>/^edge\s+(\S+)\s*->\s*(\S+)$/\<close>.  The first group is greedy and gives
  characters back one at a time until the rest of the line matches
  \<^verbatim>\<open>\s*->\s*(\S+)$\<close>; \<open>edge_tail\<close> is that rest.\<close>

definition edge_tail :: "string \<Rightarrow> string option" where
  "edge_tail s =
     (let s1 = dropWhile is_space s
      in if take 2 s1 \<noteq> ''->'' then None
         else let s2 = dropWhile is_space (drop 2 s1)
              in if s2 \<noteq> [] \<and> list_all non_space s2 then Some s2 else None)"

fun edge_from :: "nat \<Rightarrow> string \<Rightarrow> string \<Rightarrow> (string \<times> string) option" where
  "edge_from 0 r rest = None"
| "edge_from (Suc k) r rest =
     (case edge_tail (drop (Suc k) r @ rest) of
        Some t \<Rightarrow> Some (take (Suc k) r, t)
      | None \<Rightarrow> edge_from k r rest)"

definition match_edge :: "string \<Rightarrow> (string \<times> string) option" where
  "match_edge l =
     (if take 4 l \<noteq> ''edge'' then None
      else let r0 = drop 4 l;
               ws1 = takeWhile is_space r0; r1 = dropWhile is_space r0;
               r = takeWhile non_space r1; rest = dropWhile non_space r1
           in if ws1 = [] then None else edge_from (length r) r rest)"

text \<open>The body of the loop over the lines (source lines 172 to 206), on the node
  table and the edge list built so far; \<open>lineNum\<close> is the value after the increment.\<close>

definition scan_line ::
  "nat \<Rightarrow> string \<Rightarrow> node_table \<times> edge list \<Rightarrow> parse_error + node_table \<times> edge list" where
  "scan_line lineNum raw st =
     (case st of (ns, es) \<Rightarrow>
        let l = trim raw
        in if l = [] then Inr (ns, es)
           else if startsWith l ''node '' then
             (case match_node l of
                None \<Rightarrow> Inl (BadNodeSyntax lineNum)
              | Some (i, t) \<Rightarrow>
                  if truthy (lookup ns i) then Inl (DuplicateNodeId lineNum i)
                  else Inr (ns @ [(i, \<lparr>node_id = i, title = (if t = [] then i else t),
                                         children = []\<rparr>)], es))
           else if startsWith l ''edge '' then
             (case match_edge l of
                None \<Rightarrow> Inl (BadEdgeSyntax lineNum)
              | Some (f, t) \<Rightarrow> Inr (ns, es @ [\<lparr>from_id = f, to_id = t, line = lineNum\<rparr>]))
           else Inl (UnknownDirective lineNum))"

fun scan_lines ::
  "nat \<Rightarrow> string list \<Rightarrow> node_table \<times> edge list \<Rightarrow> parse_error + node_table \<times> edge list" where
  "scan_lines lineNum [] st = Inr st"
| "scan_lines lineNum (raw # rest) st =
     (case scan_line (lineNum + 1) raw st of
        Inl e \<Rightarrow> Inl e
      | Inr st' \<Rightarrow> scan_lines (lineNum + 1) rest st')"

definition push_child :: "node_table \<Rightarrow> string \<Rightarrow> string \<Rightarrow> node_table" where
  "push_child ns f t =
     map (\<lambda>(k, n). if k = f then (k, n\<lparr>children := children n @ [t]\<rparr>) else (k, n)) ns"

text \<open>The loop over the edges (source lines 210 to 218).  When \<open>nodes[edge.from]\<close> is
  an inherited property it has no \<open>children\<close>, and the \<open>push\<close> throws.\<close>

fun link_edges :: "edge list \<Rightarrow> node_table \<Rightarrow> node_table outcome" where
  "link_edges [] ns = Ok ns"
| "link_edges (e # es) ns =
     (if \<not> truthy (lookup ns (from_id e)) then Error (UnknownNodeFrom (line e) (from_id e))
      else if \<not> truthy (lookup ns (to_id e)) then Error (UnknownNodeTo (line e) (to_id e))
      else case lookup ns (from_id e) of
             Own n \<Rightarrow> link_edges es (push_child ns (from_id e) (to_id e))
           | _ \<Rightarrow> Throws TypeError)"

text \<open>\<^verbatim>\<open>a || b\<close> on values that are a string or \<^verbatim>\<open>undefined\<close>: the empty string
  and \<^verbatim>\<open>undefined\<close> are falsy.\<close>

definition js_or :: "string option \<Rightarrow> string option \<Rightarrow> string option" where
  "js_or a b = (case a of None \<Rightarrow> b | Some s \<Rightarrow> if s = [] then b else Some s)"

definition choose_root :: "node_table \<Rightarrow> edge list \<Rightarrow> string option" where
  "choose_root ns es =
     (let targets = set (map to_id es);
          keys = object_keys ns
      in js_or (find (\<lambda>i. i \<notin> targets) keys) (case keys of [] \<Rightarrow> None | k # _ \<Rightarrow> Some k))"

definition parse :: "string \<Rightarrow> model outcome" where
  "parse text =
     (case scan_lines 0 (split_lines text) ([], []) of
        Inl e \<Rightarrow> Error e
      | Inr (ns, es) \<Rightarrow>
          (case link_edges es ns of
             Error e \<Rightarrow> Error e
           | Throws x \<Rightarrow> Throws x
           | Ok ns' \<Rightarrow>
               (case choose_root ns' es of
                  None \<Rightarrow> Error NoNodesDefined
                | Some r \<Rightarrow>
                    if r = [] then Error NoNodesDefined
                    else Ok \<lparr>nodes = ns', edges = es, root_id = r\<rparr>)))"

section \<open>layoutTree\<close>

definition NODE_W :: rat where "NODE_W = 130"
definition NODE_H :: rat where "NODE_H = 46"
definition X_GAP :: rat where "X_GAP = 36"
definition Y_GAP :: rat where "Y_GAP = 80"

text \<open>The global \<open>collapsed\<close> set is an explicit argument.  \<^verbatim>\<open>nodes[id].children || []\<close>
  is the child list of a declared node, empty for an inherited property, and throws
  when \<open>nodes[id]\<close> is \<^verbatim>\<open>undefined\<close>.\<close>

definition visibleChildren :: "string set \<Rightarrow> string \<Rightarrow> node_table \<Rightarrow> exn + string list" where
  "visibleChildren collapsed i ns =
     (if i \<in> collapsed then Inr []
      else case lookup ns i of
             Own n \<Rightarrow> Inr (children n)
           | Inherited \<Rightarrow> Inr []
           | Undefined \<Rightarrow> Inl TypeError)"

text \<open>\<^verbatim>\<open>kids.forEach(f)\<close> for a callback that updates the state of the enclosing
  function and may throw.\<close>

fun forEach :: "('a \<Rightarrow> 's \<Rightarrow> exn + 's) \<Rightarrow> 'a list \<Rightarrow> 's \<Rightarrow> exn + 's" where
  "forEach f [] s = Inr s"
| "forEach f (x # xs) s = (case f x s of Inl e \<Rightarrow> Inl e | Inr s' \<Rightarrow> forEach f xs s')"

text \<open>The variables \<open>xPosition\<close>, \<open>xPositionNext\<close> and \<open>depth\<close> that \<open>firstPass\<close>
  updates.  Slots are rationals: every value the code computes is an integer or a
  mean of two earlier values, which the doubles of JavaScript hold exactly as long as
  fewer than 53 bits are needed.\<close>

record pass_state =
  xPosition :: "string \<rightharpoonup> rat"
  xPositionNext :: nat
  depth :: "string \<rightharpoonup> nat"

definition initial_pass_state :: pass_state where
  "initial_pass_state = \<lparr>xPosition = Map.empty, xPositionNext = 0, depth = Map.empty\<rparr>"

text \<open>
  \<open>firstPass\<close> has no guard against visiting an identifier again.  The first
  argument bounds the depth of the call stack: with no frame left the call throws
  \<open>RangeError\<close>, as the engine does.  \<open>xPosition.get(k)\<close> is read with \<open>the\<close>;
  lemma \<open>forEach_kids_positioned\<close> below shows that every child has a position when
  the read happens.
\<close>

primrec firstPass ::
  "nat \<Rightarrow> (string \<Rightarrow> exn + string list) \<Rightarrow> string \<Rightarrow> nat \<Rightarrow> pass_state \<Rightarrow> exn + pass_state" where
  "firstPass 0 childrenOf i d s = Inl RangeError"
| "firstPass (Suc n) childrenOf i d s =
     (let s1 = s\<lparr>depth := (depth s)(i \<mapsto> d)\<rparr>
      in case childrenOf i of
           Inl e \<Rightarrow> Inl e
         | Inr kids \<Rightarrow>
             if length kids = 0
             then Inr (s1\<lparr>xPosition := (xPosition s1)(i \<mapsto> of_nat (xPositionNext s1)),
                          xPositionNext := xPositionNext s1 + 1\<rparr>)
             else (case forEach (\<lambda>k. firstPass n childrenOf k (d + 1)) kids s1 of
                     Inl e \<Rightarrow> Inl e
                   | Inr s2 \<Rightarrow>
                       let xKidPositions = map (\<lambda>k. the (xPosition s2 k)) kids
                       in Inr (s2\<lparr>xPosition := (xPosition s2)
                                 (i \<mapsto> (Min (set xKidPositions) + Max (set xKidPositions)) / 2)\<rparr>)))"

text \<open>The second traversal, guarded by \<open>vis\<close> (a list in insertion order, as the
  \<open>Set\<close> of the source iterates).\<close>

primrec depthFirstSearch ::
  "nat \<Rightarrow> (string \<Rightarrow> exn + string list) \<Rightarrow> string \<Rightarrow> string list \<Rightarrow> exn + string list" where
  "depthFirstSearch 0 childrenOf i vis = Inl RangeError"
| "depthFirstSearch (Suc n) childrenOf i vis =
     (if i \<in> set vis then Inr vis
      else case childrenOf i of
             Inl e \<Rightarrow> Inl e
           | Inr kids \<Rightarrow> forEach (depthFirstSearch n childrenOf) kids (vis @ [i]))"

text \<open>\<open>coords\<close> is read only through \<open>coords[id]\<close>, so it is a map from identifiers
  to pairs \<open>(x, y)\<close>.  Lemma \<open>layoutTree_positioned\<close> below shows that every
  identifier for which \<open>coord_of\<close> is computed has a position.\<close>

record layout =
  coords :: "string \<rightharpoonup> rat \<times> rat"
  vis :: "string list"

definition coord_of :: "pass_state \<Rightarrow> string \<Rightarrow> rat \<times> rat" where
  "coord_of s i =
     (the (xPosition s i) * (NODE_W + X_GAP),
      of_nat (case depth s i of None \<Rightarrow> 0 | Some d \<Rightarrow> d) * (NODE_H + Y_GAP))"

text \<open>The local function \<open>children\<close> of \<open>layoutTree\<close>, closed over the model and the
  collapsed set.\<close>

definition children_of :: "string set \<Rightarrow> model \<Rightarrow> string \<Rightarrow> exn + string list" where
  "children_of collapsed m i = visibleChildren collapsed i (nodes m)"

definition layoutTree :: "nat \<Rightarrow> string set \<Rightarrow> model \<Rightarrow> exn + layout" where
  "layoutTree stack collapsed m =
     (case firstPass stack (children_of collapsed m) (root_id m) 0 initial_pass_state of
        Inl e \<Rightarrow> Inl e
      | Inr s \<Rightarrow>
          (case depthFirstSearch stack (children_of collapsed m) (root_id m) [] of
             Inl e \<Rightarrow> Inl e
           | Inr v \<Rightarrow>
               Inr \<lparr>coords = fold (\<lambda>i c. c(i \<mapsto> coord_of s i)) v Map.empty, vis = v\<rparr>))"

section \<open>render and onInput\<close>

definition mergeCollapseState :: "string set \<Rightarrow> node_table \<Rightarrow> string set" where
  "mergeCollapseState oldSet newNodes = Set.filter (\<lambda>i. truthy (lookup newNodes i)) oldSet"

datatype status_message = ParseFailed parse_error | ParsedNodes nat

datatype indicator = CollapsedMark | ExpandedMark | NoMark

text \<open>What \<open>drawEdge\<close> and \<open>drawNode\<close> append to the drawing: a connector with the
  four coordinates it was called with, and a box with its identifier, label text,
  indicator and position.\<close>

datatype svg_element =
    Connector rat rat rat rat
  | Box string string indicator rat rat

record app_state =
  collapsed :: "string set"
  currentModel :: "model option"
  status :: "(bool \<times> status_message) option"
  svg :: "svg_element list"
  storage :: "string option"

definition drawEdges :: "model \<Rightarrow> layout \<Rightarrow> string \<Rightarrow> svg_element list \<Rightarrow> exn + svg_element list" where
  "drawEdges m l i out =
     (case lookup (nodes m) i of
        Undefined \<Rightarrow> Inl TypeError
      | Inherited \<Rightarrow> Inr out
      | Own n \<Rightarrow>
          forEach (\<lambda>idChild acc.
                     if idChild \<notin> set (vis l) then Inr acc
                     else (case (coords l i, coords l idChild) of
                             (Some (px, py), Some (cx, cy)) \<Rightarrow> Inr (acc @ [Connector px py cx cy])
                           | _ \<Rightarrow> Inl TypeError))
            (children n) out)"

definition drawNodes :: "string set \<Rightarrow> model \<Rightarrow> layout \<Rightarrow> string \<Rightarrow> svg_element list \<Rightarrow> exn + svg_element list" where
  "drawNodes cs m l i out =
     (case lookup (nodes m) i of
        Undefined \<Rightarrow> Inl TypeError
      | p \<Rightarrow>
          let totalCount = (case p of Own n \<Rightarrow> length (children n) | _ \<Rightarrow> 0);
              label = (case p of Own n \<Rightarrow> (if title n = [] then i else title n) | _ \<Rightarrow> i);
              mark = (if i \<in> cs then CollapsedMark
                      else if totalCount \<noteq> 0 then ExpandedMark else NoMark)
          in (case coords l i of
                Some (x, y) \<Rightarrow> Inr (out @ [Box i label mark x y])
              | None \<Rightarrow> Inl TypeError))"

text \<open>An exception that leaves \<open>render\<close> or \<open>onInput\<close> is the result \<open>Inl\<close>; the
  state it leaves behind is not described.\<close>

definition render :: "nat \<Rightarrow> model \<Rightarrow> app_state \<Rightarrow> exn + app_state" where
  "render stack m st =
     (let st1 = st\<lparr>currentModel := Some m, svg := []\<rparr>
      in case layoutTree stack (collapsed st1) m of
           Inl e \<Rightarrow> Inl e
         | Inr l \<Rightarrow>
             (case forEach (drawEdges m l) (vis l) [] of
                Inl e \<Rightarrow> Inl e
              | Inr es \<Rightarrow>
                  (case forEach (drawNodes (collapsed st1) m l) (vis l) es of
                     Inl e \<Rightarrow> Inl e
                   | Inr out \<Rightarrow> Inr (st1\<lparr>svg := out\<rparr>))))"

text \<open>\<open>localStorage.setItem\<close> may throw (private mode, quota); \<open>saveSource\<close>
  catches that and goes on.  Whether the store accepts the text is the first
  argument.\<close>

definition saveSource :: "bool \<Rightarrow> string \<Rightarrow> app_state \<Rightarrow> app_state" where
  "saveSource accepted text st = (if accepted then st\<lparr>storage := Some text\<rparr> else st)"

text \<open>\<open>onInput\<close> on the text of the editor.\<close>

definition onInput :: "bool \<Rightarrow> nat \<Rightarrow> string \<Rightarrow> app_state \<Rightarrow> exn + app_state" where
  "onInput accepted stack text st =
     (let st1 = saveSource accepted text st
      in case parse text of
           Throws x \<Rightarrow> Inl x
         | Error e \<Rightarrow> Inr (st1\<lparr>status := Some (False, ParseFailed e), svg := []\<rparr>)
         | Ok result \<Rightarrow>
             let st2 = st1\<lparr>collapsed := mergeCollapseState (collapsed st1) (nodes result)\<rparr>;
                 st3 = st2\<lparr>status := Some (True, ParsedNodes (length (object_keys (nodes result))))\<rparr>
             in render stack result st3)"

section \<open>The program on a store\<close>

text \<open>
  The functions above take the objects of the program as values.  When the program
  runs, the object \<open>nodes\<close> and the array \<open>edges\<close> that \<open>parse\<close> creates are
  cells of a store, the model that \<open>parse\<close> returns holds references to them, and
  \<open>collapsed\<close> and \<open>currentModel\<close> are variables of the script that every call can
  read.  This section writes \<open>parse\<close> and \<open>layoutTree\<close> on such a store; the lemmas
  \<open>parse_store_spec\<close> and \<open>layoutTree_store_eq\<close> below show that they compute the
  functions above.

  A reference is an index into the list of the cells of its kind, and creating an
  object appends a cell.  A node object and its \<open>children\<close> array are created in
  \<open>parse\<close> and reached only through the \<open>nodes\<close> object that holds them, so they are
  kept inside its cell; an edge object is never changed after it is created.
\<close>

type_synonym ref = nat

record model_ref =
  nodes_ref :: ref
  edges_ref :: ref
  root_ref :: string

record store =
  objects :: "node_table list"
  arrays :: "edge list list"
  collapsed_set :: "string set"
  current_model :: "model_ref option"

text \<open>\<^verbatim>\<open>{}\<close> and \<^verbatim>\<open>[]\<close>: a new cell, and the reference to it.\<close>

definition new_object :: "store \<Rightarrow> ref \<times> store" where
  "new_object \<sigma> = (length (objects \<sigma>), \<sigma>\<lparr>objects := objects \<sigma> @ [[]]\<rparr>)"

definition new_array :: "store \<Rightarrow> ref \<times> store" where
  "new_array \<sigma> = (length (arrays \<sigma>), \<sigma>\<lparr>arrays := arrays \<sigma> @ [[]]\<rparr>)"

text \<open>\<^verbatim>\<open>obj[k]\<close>, and \<^verbatim>\<open>obj[k] = v\<close>: an own property keeps its place, a
  new one is added at the end.\<close>

definition get_property :: "ref \<Rightarrow> string \<Rightarrow> store \<Rightarrow> node property" where
  "get_property a k \<sigma> = lookup (objects \<sigma> ! a) k"

fun assign :: "string \<Rightarrow> 'a \<Rightarrow> (string \<times> 'a) list \<Rightarrow> (string \<times> 'a) list" where
  "assign k v [] = [(k, v)]"
| "assign k v (p # ps) = (if fst p = k then (k, v) # ps else p # assign k v ps)"

definition set_property :: "ref \<Rightarrow> string \<Rightarrow> node \<Rightarrow> store \<Rightarrow> store" where
  "set_property a k v \<sigma> = \<sigma>\<lparr>objects := (objects \<sigma>)[a := assign k v (objects \<sigma> ! a)]\<rparr>"

text \<open>\<^verbatim>\<open>edges.push(e)\<close>, and \<^verbatim>\<open>nodes[f].children.push(t)\<close> for an own
  property \<open>f\<close>.\<close>

definition array_push :: "ref \<Rightarrow> edge \<Rightarrow> store \<Rightarrow> store" where
  "array_push b e \<sigma> = \<sigma>\<lparr>arrays := (arrays \<sigma>)[b := arrays \<sigma> ! b @ [e]]\<rparr>"

definition children_push :: "ref \<Rightarrow> string \<Rightarrow> string \<Rightarrow> store \<Rightarrow> store" where
  "children_push a f t \<sigma> = \<sigma>\<lparr>objects := (objects \<sigma>)[a := push_child (objects \<sigma> ! a) f t]\<rparr>"

text \<open>The body of the loop over the lines, on the cells \<open>ns\<close> and \<open>es\<close>.  The two
  regular expressions are literals without the \<open>g\<close> or \<open>y\<close> flag, evaluated anew at
  every match: the match starts at index 0 and neither reads nor writes
  \<open>lastIndex\<close>, so it is the function of the line given above.  The result is the
  error that the line returns, if any, and the store.\<close>

definition scan_line_store :: "ref \<Rightarrow> ref \<Rightarrow> nat \<Rightarrow> string \<Rightarrow> store \<Rightarrow> parse_error option \<times> store" where
  "scan_line_store ns es lineNum raw \<sigma> =
     (let l = trim raw
      in if l = [] then (None, \<sigma>)
         else if startsWith l ''node '' then
           (case match_node l of
              None \<Rightarrow> (Some (BadNodeSyntax lineNum), \<sigma>)
            | Some (i, t) \<Rightarrow>
                if truthy (get_property ns i \<sigma>) then (Some (DuplicateNodeId lineNum i), \<sigma>)
                else (None, set_property ns i
                              \<lparr>node_id = i, title = (if t = [] then i else t), children = []\<rparr> \<sigma>))
         else if startsWith l ''edge '' then
           (case match_edge l of
              None \<Rightarrow> (Some (BadEdgeSyntax lineNum), \<sigma>)
            | Some (f, t) \<Rightarrow>
                (None, array_push es \<lparr>from_id = f, to_id = t, line = lineNum\<rparr> \<sigma>))
         else (Some (UnknownDirective lineNum), \<sigma>))"

fun scan_lines_store ::
  "ref \<Rightarrow> ref \<Rightarrow> nat \<Rightarrow> string list \<Rightarrow> store \<Rightarrow> parse_error option \<times> store" where
  "scan_lines_store ns es lineNum [] \<sigma> = (None, \<sigma>)"
| "scan_lines_store ns es lineNum (raw # rest) \<sigma> =
     (case scan_line_store ns es (lineNum + 1) raw \<sigma> of
        (Some e, \<sigma>') \<Rightarrow> (Some e, \<sigma>')
      | (None, \<sigma>') \<Rightarrow> scan_lines_store ns es (lineNum + 1) rest \<sigma>')"

text \<open>The loop over the edges, on the array as it is when the loop starts.\<close>

fun link_edges_store :: "ref \<Rightarrow> edge list \<Rightarrow> store \<Rightarrow> unit outcome \<times> store" where
  "link_edges_store ns [] \<sigma> = (Ok (), \<sigma>)"
| "link_edges_store ns (e # es) \<sigma> =
     (if \<not> truthy (get_property ns (from_id e) \<sigma>)
      then (Error (UnknownNodeFrom (line e) (from_id e)), \<sigma>)
      else if \<not> truthy (get_property ns (to_id e) \<sigma>)
      then (Error (UnknownNodeTo (line e) (to_id e)), \<sigma>)
      else case get_property ns (from_id e) \<sigma> of
             Own n \<Rightarrow> link_edges_store ns es (children_push ns (from_id e) (to_id e) \<sigma>)
           | _ \<Rightarrow> (Throws TypeError, \<sigma>))"

definition parse_store :: "string \<Rightarrow> store \<Rightarrow> model_ref outcome \<times> store" where
  "parse_store text \<sigma> =
     (case new_object \<sigma> of (ns, \<sigma>1) \<Rightarrow>
      case new_array \<sigma>1 of (es, \<sigma>2) \<Rightarrow>
      case scan_lines_store ns es 0 (split_lines text) \<sigma>2 of
        (Some e, \<sigma>3) \<Rightarrow> (Error e, \<sigma>3)
      | (None, \<sigma>3) \<Rightarrow>
          (case link_edges_store ns (arrays \<sigma>3 ! es) \<sigma>3 of
             (Error e, \<sigma>4) \<Rightarrow> (Error e, \<sigma>4)
           | (Throws x, \<sigma>4) \<Rightarrow> (Throws x, \<sigma>4)
           | (Ok _, \<sigma>4) \<Rightarrow>
               (case choose_root (objects \<sigma>4 ! ns) (arrays \<sigma>4 ! es) of
                  None \<Rightarrow> (Error NoNodesDefined, \<sigma>4)
                | Some r \<Rightarrow>
                    if r = [] then (Error NoNodesDefined, \<sigma>4)
                    else (Ok \<lparr>nodes_ref = ns, edges_ref = es, root_ref = r\<rparr>, \<sigma>4))))"

text \<open>\<open>visibleChildren\<close> reads the variable \<open>collapsed\<close> and the \<open>nodes\<close> object of
  the model; \<open>layoutTree\<close> creates its maps and its set itself and writes to nothing
  else, so it returns the layout alone.\<close>

definition visibleChildren_store :: "string \<Rightarrow> ref \<Rightarrow> store \<Rightarrow> exn + string list" where
  "visibleChildren_store i ns \<sigma> =
     (if i \<in> collapsed_set \<sigma> then Inr []
      else case get_property ns i \<sigma> of
             Own n \<Rightarrow> Inr (children n)
           | Inherited \<Rightarrow> Inr []
           | Undefined \<Rightarrow> Inl TypeError)"

definition layoutTree_store :: "nat \<Rightarrow> model_ref \<Rightarrow> store \<Rightarrow> exn + layout" where
  "layoutTree_store stack m \<sigma> =
     (let childrenOf = (\<lambda>i. visibleChildren_store i (nodes_ref m) \<sigma>)
      in case firstPass stack childrenOf (root_ref m) 0 initial_pass_state of
           Inl e \<Rightarrow> Inl e
         | Inr s \<Rightarrow>
             (case depthFirstSearch stack childrenOf (root_ref m) [] of
                Inl e \<Rightarrow> Inl e
              | Inr v \<Rightarrow>
                  Inr \<lparr>coords = fold (\<lambda>i c. c(i \<mapsto> coord_of s i)) v Map.empty, vis = v\<rparr>))"

section \<open>Vocabulary of the properties\<close>

subsection \<open>Errors of parse\<close>






subsection \<open>Stores\<close>

text \<open>\<open>model_at \<sigma> m\<close> is the model that the references of \<open>m\<close> lead to in the store
  \<open>\<sigma>\<close>, with the child lists, the edge list and the root, and \<open>result_at\<close> the same
  for a result of \<open>parse_store\<close>.  \<open>store_with a b st \<sigma>\<close> is \<open>\<sigma>\<close> with the cells \<open>a\<close>
  and \<open>b\<close> holding \<open>st\<close>.  \<open>extends \<sigma> \<sigma>'\<close>: the store \<open>\<sigma>'\<close> is \<open>\<sigma>\<close> with one more
  object and one more array; every cell of \<open>\<sigma>\<close> and both variables are as they
  were.\<close>

definition model_at :: "store \<Rightarrow> model_ref \<Rightarrow> model" where
  "model_at \<sigma> m =
     \<lparr>nodes = objects \<sigma> ! nodes_ref m, edges = arrays \<sigma> ! edges_ref m, root_id = root_ref m\<rparr>"

definition result_at :: "store \<Rightarrow> model_ref outcome \<Rightarrow> model outcome" where
  "result_at \<sigma> r =
     (case r of Ok m \<Rightarrow> Ok (model_at \<sigma> m) | Error e \<Rightarrow> Error e | Throws x \<Rightarrow> Throws x)"

definition store_with :: "ref \<Rightarrow> ref \<Rightarrow> node_table \<times> edge list \<Rightarrow> store \<Rightarrow> store" where
  "store_with a b st \<sigma> =
     \<sigma>\<lparr>objects := (objects \<sigma>)[a := fst st], arrays := (arrays \<sigma>)[b := snd st]\<rparr>"

definition extends :: "store \<Rightarrow> store \<Rightarrow> bool" where
  "extends \<sigma> \<sigma>' =
     (take (length (objects \<sigma>)) (objects \<sigma>') = objects \<sigma> \<and>
      take (length (arrays \<sigma>)) (arrays \<sigma>') = arrays \<sigma> \<and>
      length (objects \<sigma>') = Suc (length (objects \<sigma>)) \<and>
      length (arrays \<sigma>') = Suc (length (arrays \<sigma>)) \<and>
      collapsed_set \<sigma>' = collapsed_set \<sigma> \<and> current_model \<sigma>' = current_model \<sigma>)"

subsection \<open>Traversals\<close>

text \<open>\<open>visits\<close> lists the identifiers in the order in which the calls of \<open>firstPass\<close>
  return: the visits below each child, child after child, and then the identifier
  itself.  It needs the same depth of stack as \<open>firstPass\<close>.  An identifier that is
  reached along two paths is listed twice, so a list without repetition means that no
  visible node is reachable along more than one path.\<close>

fun collect :: "('a \<Rightarrow> exn + 'b list) \<Rightarrow> 'a list \<Rightarrow> exn + 'b list" where
  "collect f [] = Inr []"
| "collect f (k # ks) =
     (case f k of
        Inl e \<Rightarrow> Inl e
      | Inr vs \<Rightarrow> (case collect f ks of Inl e \<Rightarrow> Inl e | Inr ws \<Rightarrow> Inr (vs @ ws)))"

primrec visits :: "nat \<Rightarrow> (string \<Rightarrow> exn + string list) \<Rightarrow> string \<Rightarrow> exn + string list" where
  "visits 0 ch i = Inl RangeError"
| "visits (Suc n) ch i =
     (case ch i of
        Inl e \<Rightarrow> Inl e
      | Inr kids \<Rightarrow> (case collect (visits n ch) kids of Inl e \<Rightarrow> Inl e | Inr vs \<Rightarrow> Inr (vs @ [i])))"

definition is_leaf :: "(string \<Rightarrow> exn + string list) \<Rightarrow> string \<Rightarrow> bool" where
  "is_leaf ch i = (ch i = Inr [])"

text \<open>The edges that the traversals follow, and closure of a set of identifiers
  under them.\<close>

definition child_rel :: "(string \<Rightarrow> exn + string list) \<Rightarrow> (string \<times> string) set" where
  "child_rel ch = {(p, k). \<exists>kids. ch p = Inr kids \<and> k \<in> set kids}"

definition closed_under :: "(string \<Rightarrow> exn + string list) \<Rightarrow> string set \<Rightarrow> bool" where
  "closed_under ch A = (\<forall>p k. p \<in> A \<longrightarrow> (p, k) \<in> child_rel ch \<longrightarrow> k \<in> A)"

text \<open>What a run of the guarded traversal from \<open>starts\<close> adds to the visited list.\<close>

definition dfs_step :: "(string \<Rightarrow> exn + string list) \<Rightarrow> string set \<Rightarrow> string list \<Rightarrow> string list \<Rightarrow> bool" where
  "dfs_step ch starts v v' =
     (set v \<subseteq> set v' \<and> starts \<subseteq> set v' \<and>
      (\<forall>x \<in> set v' - set v. \<exists>a \<in> starts. (a, x) \<in> (child_rel ch)\<^sup>*) \<and>
      (\<forall>p k. p \<in> set v' - set v \<longrightarrow> (p, k) \<in> child_rel ch \<longrightarrow> k \<in> set v') \<and>
      (distinct v \<longrightarrow> distinct v'))"

text \<open>What a run of \<open>firstPass\<close> with the visits \<open>vs\<close> does to the state: the counter
  advances by the number of leaf visits, nothing changes outside \<open>vs\<close>, and every
  visited identifier has a slot and a depth.\<close>

definition pass_rel :: "(string \<Rightarrow> exn + string list) \<Rightarrow> pass_state \<Rightarrow> pass_state \<Rightarrow> string list \<Rightarrow> bool" where
  "pass_rel ch s s' vs =
     (xPositionNext s' = xPositionNext s + length (filter (is_leaf ch) vs) \<and>
      (\<forall>v. v \<notin> set vs \<longrightarrow> xPosition s' v = xPosition s v \<and> depth s' v = depth s v) \<and>
      (\<forall>v \<in> set vs. xPosition s' v \<noteq> None \<and> depth s' v \<noteq> None))"

text \<open>The mean of the least and the greatest slot among \<open>kids\<close>, as \<open>firstPass\<close>
  computes it.\<close>

definition mean_of_kids :: "pass_state \<Rightarrow> string list \<Rightarrow> rat" where
  "mean_of_kids s kids =
     (Min ((\<lambda>k. the (xPosition s k)) ` set kids) + Max ((\<lambda>k. the (xPosition s k)) ` set kids)) / 2"

text \<open>The state after a run whose visits \<open>vs\<close> are all different: the leaves have
  consecutive slots in the order of \<open>vs\<close>, every other visited identifier has the mean
  slot of its children, and every child is one level below its parent.\<close>

definition tree_rel :: "(string \<Rightarrow> exn + string list) \<Rightarrow> pass_state \<Rightarrow> pass_state \<Rightarrow> string list \<Rightarrow> bool" where
  "tree_rel ch s s' vs =
     ((\<forall>j < length (filter (is_leaf ch) vs).
         xPosition s' (filter (is_leaf ch) vs ! j) = Some (of_nat (xPositionNext s + j))) \<and>
      (\<forall>p kids. p \<in> set vs \<longrightarrow> ch p = Inr kids \<longrightarrow> kids \<noteq> [] \<longrightarrow>
         xPosition s' p = Some (mean_of_kids s' kids)) \<and>
      (\<forall>p kids k. p \<in> set vs \<longrightarrow> ch p = Inr kids \<longrightarrow> k \<in> set kids \<longrightarrow>
         (\<exists>dp. depth s' p = Some dp \<and> depth s' k = Some (Suc dp))))"


text \<open>No identifier is the child of two nodes, and \<open>r\<close> is the child of none.\<close>

definition single_parent :: "(string \<Rightarrow> exn + string list) \<Rightarrow> string \<Rightarrow> bool" where
  "single_parent ch r =
     ((\<forall>p. (p, r) \<notin> child_rel ch) \<and>
      (\<forall>p q k. (p, k) \<in> child_rel ch \<longrightarrow> (q, k) \<in> child_rel ch \<longrightarrow> p = q))"

text \<open>What \<open>parse\<close> establishes about a model: the root and every child in the node
  table are found by the lookup.\<close>

definition children_found :: "node_table \<Rightarrow> bool" where
  "children_found ns = (\<forall>(k, nd) \<in> set ns. \<forall>c \<in> set (children nd). truthy (lookup ns c))"

definition linked :: "model \<Rightarrow> bool" where
  "linked m =
     (truthy (lookup (nodes m) (root_id m)) \<and>
      (\<forall>(k, n) \<in> set (nodes m). \<forall>c \<in> set (children n). truthy (lookup (nodes m) c)))"

text \<open>The result of \<open>layoutTree\<close> as it is observed: the visible identifiers in the
  order of the set, and the coordinates of each.\<close>

definition layout_view :: "exn + layout \<Rightarrow> exn + string list \<times> (rat \<times> rat) option list" where
  "layout_view r = (case r of Inl e \<Rightarrow> Inl e | Inr l \<Rightarrow> Inr (vis l, map (coords l) (vis l)))"

subsection \<open>Example texts and the models they parse to\<close>

definition quote :: "string \<Rightarrow> string" where
  "quote s = CHR 0x22 # s @ [CHR 0x22]"

definition lines_text :: "string list \<Rightarrow> string" where
  "lines_text ls = concat (map (\<lambda>l. l @ [CHR 0x0A]) ls)"

text \<open>A node that is its own child.\<close>

definition self_edge_text :: string where
  "self_edge_text = lines_text [''node A '' @ quote ''a'', ''edge A -> A'']"

definition self_edge_model :: model where
  "self_edge_model =
     \<lparr>nodes = [(''A'', \<lparr>node_id = ''A'', title = ''a'', children = [''A'']\<rparr>)],
      edges = [\<lparr>from_id = ''A'', to_id = ''A'', line = 2\<rparr>],
      root_id = ''A''\<rparr>"

text \<open>An identifier that is an array index, declared second.\<close>

definition numeric_id_text :: string where
  "numeric_id_text = lines_text [''node b '' @ quote ''x'', ''node 1 '' @ quote ''y'']"

text \<open>A tree: \<open>R\<close> with the children \<open>A\<close> and \<open>B\<close>, and \<open>C\<close> below \<open>A\<close>.\<close>

definition tree_text :: string where
  "tree_text = lines_text [''node R '' @ quote ''r'', ''node A '' @ quote ''a'', ''node B '' @ quote ''b'',
     ''node C '' @ quote ''c'', ''edge R -> A'', ''edge R -> B'', ''edge A -> C'']"

definition tree_model :: model where
  "tree_model =
     \<lparr>nodes = [(''R'', \<lparr>node_id = ''R'', title = ''r'', children = [''A'', ''B'']\<rparr>),
               (''A'', \<lparr>node_id = ''A'', title = ''a'', children = [''C'']\<rparr>),
               (''B'', \<lparr>node_id = ''B'', title = ''b'', children = []\<rparr>),
               (''C'', \<lparr>node_id = ''C'', title = ''c'', children = []\<rparr>)],
      edges = [\<lparr>from_id = ''R'', to_id = ''A'', line = 5\<rparr>,
               \<lparr>from_id = ''R'', to_id = ''B'', line = 6\<rparr>,
               \<lparr>from_id = ''A'', to_id = ''C'', line = 7\<rparr>],
      root_id = ''R''\<rparr>"



text \<open>Two models that are not trees: \<open>L\<close> below both \<open>A\<close> and \<open>B\<close>; and \<open>C\<close> below both
  the root and \<open>A\<close>.\<close>

definition diamond_text :: string where
  "diamond_text = lines_text [''node R '' @ quote ''r'', ''node A '' @ quote ''a'', ''node B '' @ quote ''b'',
     ''node L '' @ quote ''l'', ''edge R -> A'', ''edge R -> B'', ''edge A -> L'', ''edge B -> L'']"

definition diamond_model :: model where
  "diamond_model =
     \<lparr>nodes = [(''R'', \<lparr>node_id = ''R'', title = ''r'', children = [''A'', ''B'']\<rparr>),
               (''A'', \<lparr>node_id = ''A'', title = ''a'', children = [''L'']\<rparr>),
               (''B'', \<lparr>node_id = ''B'', title = ''b'', children = [''L'']\<rparr>),
               (''L'', \<lparr>node_id = ''L'', title = ''l'', children = []\<rparr>)],
      edges = [\<lparr>from_id = ''R'', to_id = ''A'', line = 5\<rparr>,
               \<lparr>from_id = ''R'', to_id = ''B'', line = 6\<rparr>,
               \<lparr>from_id = ''A'', to_id = ''L'', line = 7\<rparr>,
               \<lparr>from_id = ''B'', to_id = ''L'', line = 8\<rparr>],
      root_id = ''R''\<rparr>"

definition shortcut_text :: string where
  "shortcut_text = lines_text [''node R '' @ quote ''r'', ''node A '' @ quote ''a'', ''node C '' @ quote ''c'',
     ''edge R -> A'', ''edge R -> C'', ''edge A -> C'']"

definition shortcut_model :: model where
  "shortcut_model =
     \<lparr>nodes = [(''R'', \<lparr>node_id = ''R'', title = ''r'', children = [''A'', ''C'']\<rparr>),
               (''A'', \<lparr>node_id = ''A'', title = ''a'', children = [''C'']\<rparr>),
               (''C'', \<lparr>node_id = ''C'', title = ''c'', children = []\<rparr>)],
      edges = [\<lparr>from_id = ''R'', to_id = ''A'', line = 4\<rparr>,
               \<lparr>from_id = ''R'', to_id = ''C'', line = 5\<rparr>,
               \<lparr>from_id = ''A'', to_id = ''C'', line = 6\<rparr>],
      root_id = ''R''\<rparr>"







definition start_store :: store where
  "start_store = \<lparr>objects = [], arrays = [], collapsed_set = {''A''}, current_model = None\<rparr>"

definition blank_state :: app_state where
  "blank_state = \<lparr>collapsed = {}, currentModel = None, status = None, svg = [], storage = None\<rparr>"

section \<open>Depth of the stack\<close>

lemma forEach_cong_result:
  "forEach f xs s = Inr s' \<Longrightarrow> (\<And>x a b. x \<in> set xs \<Longrightarrow> f x a = Inr b \<Longrightarrow> g x a = Inr b) \<Longrightarrow>
   forEach g xs s = Inr s'"
proof (induction xs arbitrary: s)
  case Nil
  then show ?case by simp
next
  case (Cons x xs)
  from Cons.prems(1) obtain a where a: "f x s = Inr a" and r: "forEach f xs a = Inr s'"
    by (auto split: sum.splits)
  have "g x s = Inr a" using Cons.prems(2) a by simp
  moreover have "forEach g xs a = Inr s'"
    using Cons.IH [OF r] Cons.prems(2) by simp
  ultimately show ?case by simp
qed

lemma firstPass_Suc:
  "firstPass n ch i d s = Inr s' \<Longrightarrow> firstPass (Suc n) ch i d s = Inr s'"
proof (induction n arbitrary: i d s s')
  case 0
  then show ?case by simp
next
  case (Suc n)
  show ?case
  proof (cases "ch i")
    case (Inl e)
    with Suc.prems show ?thesis by simp
  next
    case (Inr kids)
    show ?thesis
    proof (cases "kids = []")
      case True
      with Suc.prems Inr show ?thesis by simp
    next
      case False
      let ?s1 = "s\<lparr>depth := (depth s)(i \<mapsto> d)\<rparr>"
      from Suc.prems Inr False obtain s2 where
        s2: "forEach (\<lambda>k. firstPass n ch k (d + 1)) kids ?s1 = Inr s2"
        by (auto simp: Let_def split: sum.splits)
      have "forEach (\<lambda>k. firstPass (Suc n) ch k (d + 1)) kids ?s1 = Inr s2"
        using forEach_cong_result [OF s2, of "\<lambda>k. firstPass (Suc n) ch k (d + 1)"] Suc.IH
        by blast
      with Suc.prems Inr False s2 show ?thesis
        by (simp add: Let_def del: firstPass.simps) (simp add: Let_def)
    qed
  qed
qed

lemma firstPass_mono:
  "firstPass n ch i d s = Inr s' \<Longrightarrow> n \<le> m \<Longrightarrow> firstPass m ch i d s = Inr s'"
proof (induction m)
  case 0
  then show ?case by simp
next
  case (Suc m)
  show ?case
  proof (cases "n = Suc m")
    case True
    with Suc.prems show ?thesis by simp
  next
    case False
    with Suc.prems have "n \<le> m" by simp
    from firstPass_Suc [OF Suc.IH [OF Suc.prems(1) this]] show ?thesis .
  qed
qed

lemma depthFirstSearch_Suc:
  "depthFirstSearch n ch i v = Inr v' \<Longrightarrow> depthFirstSearch (Suc n) ch i v = Inr v'"
proof (induction n arbitrary: i v v')
  case 0
  then show ?case by simp
next
  case (Suc n)
  show ?case
  proof (cases "i \<in> set v")
    case True
    with Suc.prems show ?thesis by simp
  next
    case False
    with Suc.prems obtain kids where kids: "ch i = Inr kids"
      and r: "forEach (depthFirstSearch n ch) kids (v @ [i]) = Inr v'"
      by (auto split: sum.splits)
    have "forEach (depthFirstSearch (Suc n) ch) kids (v @ [i]) = Inr v'"
      using forEach_cong_result [OF r, of "depthFirstSearch (Suc n) ch"] Suc.IH by blast
    with False kids show ?thesis by (subst depthFirstSearch.simps) simp
  qed
qed

lemma depthFirstSearch_mono:
  "depthFirstSearch n ch i v = Inr v' \<Longrightarrow> n \<le> m \<Longrightarrow> depthFirstSearch m ch i v = Inr v'"
proof (induction m)
  case 0
  then show ?case by simp
next
  case (Suc m)
  show ?case
  proof (cases "n = Suc m")
    case True
    with Suc.prems show ?thesis by simp
  next
    case False
    with Suc.prems have "n \<le> m" by simp
    from depthFirstSearch_Suc [OF Suc.IH [OF Suc.prems(1) this]] show ?thesis .
  qed
qed

lemma layoutTree_mono:
  assumes "layoutTree n c m = Inr l" and "n \<le> k"
  shows "layoutTree k c m = Inr l"
proof -
  let ?ch = "children_of c m"
  from assms(1) obtain s v where
    s: "firstPass n ?ch (root_id m) 0 initial_pass_state = Inr s" and
    v: "depthFirstSearch n ?ch (root_id m) [] = Inr v" and
    l: "l = \<lparr>coords = fold (\<lambda>i c. c(i \<mapsto> coord_of s i)) v Map.empty, vis = v\<rparr>"
    by (auto simp: layoutTree_def split: sum.splits)
  show ?thesis
    using firstPass_mono [OF s assms(2)] depthFirstSearch_mono [OF v assms(2)] l
    by (simp add: layoutTree_def)
qed

lemma layoutTree_stack_independent:
  assumes "layoutTree n c m = Inr l" and "layoutTree k c m = Inr l'"
  shows "l = l'"
proof (cases "n \<le> k")
  case True
  from layoutTree_mono [OF assms(1) True] assms(2) show ?thesis by simp
next
  case False
  then have "k \<le> n" by simp
  from layoutTree_mono [OF assms(2) this] assms(1) show ?thesis by simp
qed

section \<open>Errors of parse\<close>




lemma keys_push_child: "map fst (push_child ns f t) = map fst ns"
  by (induction ns) (auto simp: push_child_def)

lemma map_of_push_child_None:
  "(map_of (push_child ns f t) k = None) = (map_of ns k = None)"
proof -
  have "set (map fst (push_child ns f t)) = set (map fst ns)"
    by (simp only: keys_push_child)
  then show ?thesis
    by (simp add: map_of_eq_None_iff)
qed

lemma truthy_push_child: "truthy (lookup (push_child ns f t) k) = truthy (lookup ns k)"
proof (cases "map_of ns k")
  case None
  then have "map_of (push_child ns f t) k = None" by (simp add: map_of_push_child_None)
  with None show ?thesis by (simp add: lookup_def)
next
  case (Some a)
  then obtain b where "map_of (push_child ns f t) k = Some b"
    using map_of_push_child_None [of ns f t k] by auto
  with Some show ?thesis by (simp add: lookup_def truthy_def)
qed










section \<open>The identifiers a traversal reaches\<close>

lemma closed_under_rtrancl:
  "(p, k) \<in> (child_rel ch)\<^sup>* \<Longrightarrow> closed_under ch A \<Longrightarrow> p \<in> A \<Longrightarrow> k \<in> A"
  by (induction rule: rtrancl_induct) (auto simp: closed_under_def)

lemma collect_Cons_Inr:
  "collect f (k # ks) = Inr r \<Longrightarrow> \<exists>vs ws. f k = Inr vs \<and> collect f ks = Inr ws \<and> r = vs @ ws"
  by (auto split: sum.splits)

lemma collect_set:
  "collect f ks = Inr r \<Longrightarrow> v \<in> set r \<Longrightarrow> \<exists>k vs. k \<in> set ks \<and> f k = Inr vs \<and> v \<in> set vs"
proof (induction ks arbitrary: r)
  case Nil
  then show ?case by simp
next
  case (Cons k ks)
  from collect_Cons_Inr [OF Cons.prems(1)] obtain vs ws where
    f: "f k = Inr vs" and c: "collect f ks = Inr ws" and r: "r = vs @ ws" by blast
  show ?case
  proof (cases "v \<in> set vs")
    case True
    with f show ?thesis by auto
  next
    case False
    with Cons.prems(2) r have "v \<in> set ws" by simp
    from Cons.IH [OF c this] show ?thesis by auto
  qed
qed

lemma collect_superset:
  "collect f ks = Inr r \<Longrightarrow> k \<in> set ks \<Longrightarrow> f k = Inr vs \<Longrightarrow> set vs \<subseteq> set r"
proof (induction ks arbitrary: r)
  case Nil
  then show ?case by simp
next
  case (Cons a ks)
  from collect_Cons_Inr [OF Cons.prems(1)] obtain us ws where
    f: "f a = Inr us" and c: "collect f ks = Inr ws" and r: "r = us @ ws" by blast
  show ?case
  proof (cases "k = a")
    case True
    with f Cons.prems(3) r show ?thesis by auto
  next
    case False
    with Cons.prems(2) have "k \<in> set ks" by simp
    from Cons.IH [OF c this Cons.prems(3)] r show ?thesis by auto
  qed
qed

lemma collect_defined:
  "collect f ks = Inr r \<Longrightarrow> k \<in> set ks \<Longrightarrow> \<exists>vs. f k = Inr vs"
proof (induction ks arbitrary: r)
  case Nil
  then show ?case by simp
next
  case (Cons a ks)
  from collect_Cons_Inr [OF Cons.prems(1)] obtain us ws where
    f: "f a = Inr us" and c: "collect f ks = Inr ws" by blast
  with Cons.IH [OF c] Cons.prems(2) show ?case by auto
qed

lemma visits_Suc_Inr:
  "visits (Suc n) ch i = Inr r \<Longrightarrow>
     \<exists>kids vs. ch i = Inr kids \<and> collect (visits n ch) kids = Inr vs \<and> r = vs @ [i]"
  by (auto split: sum.splits)

lemma visits_facts:
  "visits n ch i = Inr r \<Longrightarrow>
     i \<in> set r \<and> (\<forall>v \<in> set r. (i, v) \<in> (child_rel ch)\<^sup>*) \<and> closed_under ch (set r)"
proof (induction n arbitrary: i r)
  case 0
  then show ?case by simp
next
  case (Suc n)
  from visits_Suc_Inr [OF Suc.prems] obtain kids vs where
    kids: "ch i = Inr kids" and c: "collect (visits n ch) kids = Inr vs" and r: "r = vs @ [i]"
    by blast
  have reach: "(i, v) \<in> (child_rel ch)\<^sup>*" if "v \<in> set vs" for v
  proof -
    from collect_set [OF c that] obtain k ws where
      k: "k \<in> set kids" and w: "visits n ch k = Inr ws" and v: "v \<in> set ws" by blast
    from Suc.IH [OF w] v have "(k, v) \<in> (child_rel ch)\<^sup>*" by blast
    moreover from k kids have "(i, k) \<in> child_rel ch" by (auto simp: child_rel_def)
    ultimately show ?thesis by (rule converse_rtrancl_into_rtrancl [rotated])
  qed
  have kids_in: "k \<in> set vs" if "k \<in> set kids" for k
  proof -
    from collect_defined [OF c that] obtain ws where w: "visits n ch k = Inr ws" by blast
    from Suc.IH [OF w] have "k \<in> set ws" by blast
    with collect_superset [OF c that w] show ?thesis by blast
  qed
  have closed: "closed_under ch (set r)"
    unfolding closed_under_def
  proof (intro allI impI)
    fix p k
    assume p: "p \<in> set r" and pk: "(p, k) \<in> child_rel ch"
    show "k \<in> set r"
    proof (cases "p \<in> set vs")
      case True
      from collect_set [OF c True] obtain a ws where
        a: "a \<in> set kids" and w: "visits n ch a = Inr ws" and pw: "p \<in> set ws" by blast
      from Suc.IH [OF w] pw pk have "k \<in> set ws" by (auto simp: closed_under_def)
      with collect_superset [OF c a w] r show ?thesis by auto
    next
      case False
      with p r have "p = i" by simp
      with pk kids have "k \<in> set kids" by (auto simp: child_rel_def)
      with kids_in r show ?thesis by simp
    qed
  qed
  from r reach closed show ?case by auto
qed

lemma visits_set: "visits n ch i = Inr r \<Longrightarrow> set r = (child_rel ch)\<^sup>* `` {i}"
proof -
  assume v: "visits n ch i = Inr r"
  from visits_facts [OF v] have i: "i \<in> set r"
    and reach: "\<forall>v \<in> set r. (i, v) \<in> (child_rel ch)\<^sup>*" and c: "closed_under ch (set r)"
    by blast+
  show ?thesis
  proof (intro equalityI subsetI)
    fix x assume "x \<in> set r"
    with reach show "x \<in> (child_rel ch)\<^sup>* `` {i}" by blast
  next
    fix x assume "x \<in> (child_rel ch)\<^sup>* `` {i}"
    then have "(i, x) \<in> (child_rel ch)\<^sup>*" by simp
    from closed_under_rtrancl [OF this c i] show "x \<in> set r" .
  qed
qed

section \<open>The guarded traversal computes the reachable identifiers\<close>

lemma dfs_stepI:
  assumes "set v \<subseteq> set v'" and "starts \<subseteq> set v'"
    and "\<And>x. x \<in> set v' \<Longrightarrow> x \<notin> set v \<Longrightarrow> \<exists>a \<in> starts. (a, x) \<in> (child_rel ch)\<^sup>*"
    and "\<And>p k. p \<in> set v' \<Longrightarrow> p \<notin> set v \<Longrightarrow> (p, k) \<in> child_rel ch \<Longrightarrow> k \<in> set v'"
    and "distinct v \<Longrightarrow> distinct v'"
  shows "dfs_step ch starts v v'"
  unfolding dfs_step_def using assms by blast

lemma dfs_step_mono: "dfs_step ch starts v v' \<Longrightarrow> set v \<subseteq> set v'"
  by (simp add: dfs_step_def)

lemma dfs_step_starts: "dfs_step ch starts v v' \<Longrightarrow> starts \<subseteq> set v'"
  by (simp add: dfs_step_def)

lemma dfs_step_reach:
  "dfs_step ch starts v v' \<Longrightarrow> x \<in> set v' \<Longrightarrow> x \<notin> set v \<Longrightarrow> \<exists>a \<in> starts. (a, x) \<in> (child_rel ch)\<^sup>*"
  by (simp add: dfs_step_def)

lemma dfs_step_closed:
  "dfs_step ch starts v v' \<Longrightarrow> p \<in> set v' \<Longrightarrow> p \<notin> set v \<Longrightarrow> (p, k) \<in> child_rel ch \<Longrightarrow> k \<in> set v'"
  unfolding dfs_step_def by blast

lemma dfs_step_distinct: "dfs_step ch starts v v' \<Longrightarrow> distinct v \<Longrightarrow> distinct v'"
  by (simp add: dfs_step_def)

lemma forEach_Cons_Inr:
  "forEach f (x # xs) s = Inr s' \<Longrightarrow> \<exists>a. f x s = Inr a \<and> forEach f xs a = Inr s'"
  by (auto split: sum.splits)

lemma dfs_step_forEach:
  assumes step: "\<And>k a b. k \<in> set kids \<Longrightarrow> f k a = Inr b \<Longrightarrow> dfs_step ch {k} a b"
  shows "forEach f kids v = Inr v' \<Longrightarrow> dfs_step ch (set kids) v v'"
  using step
proof (induction kids arbitrary: v)
  case Nil
  then show ?case by (simp add: dfs_step_def)
next
  case (Cons k ks)
  from forEach_Cons_Inr [OF Cons.prems(1)] obtain a where
    a: "f k v = Inr a" and r: "forEach f ks a = Inr v'" by blast
  have 1: "dfs_step ch {k} v a" using Cons.prems(2) a by simp
  have 2: "dfs_step ch (set ks) a v'" using Cons.IH [OF r] Cons.prems(2) by simp
  show ?case
  proof (rule dfs_stepI)
    show "set v \<subseteq> set v'" using dfs_step_mono [OF 1] dfs_step_mono [OF 2] by blast
    show "set (k # ks) \<subseteq> set v'"
      using dfs_step_starts [OF 1] dfs_step_starts [OF 2] dfs_step_mono [OF 2] by auto
    show "\<exists>a \<in> set (k # ks). (a, x) \<in> (child_rel ch)\<^sup>*" if "x \<in> set v'" "x \<notin> set v" for x
    proof (cases "x \<in> set a")
      case True
      from dfs_step_reach [OF 1 True that(2)] show ?thesis by simp
    next
      case False
      from dfs_step_reach [OF 2 that(1) False] show ?thesis by auto
    qed
    show "q \<in> set v'" if "p \<in> set v'" "p \<notin> set v" "(p, q) \<in> child_rel ch" for p q
    proof (cases "p \<in> set a")
      case True
      from dfs_step_closed [OF 1 True that(2,3)] have "q \<in> set a" .
      with dfs_step_mono [OF 2] show ?thesis by blast
    next
      case False
      from dfs_step_closed [OF 2 that(1) False that(3)] show ?thesis .
    qed
    show "distinct v'" if "distinct v"
      using dfs_step_distinct [OF 2 dfs_step_distinct [OF 1 that]] .
  qed
qed

lemma depthFirstSearch_step:
  "depthFirstSearch n ch i v = Inr v' \<Longrightarrow> dfs_step ch {i} v v'"
proof (induction n arbitrary: i v v')
  case 0
  then show ?case by simp
next
  case (Suc n)
  show ?case
  proof (cases "i \<in> set v")
    case True
    with Suc.prems have "v' = v" by simp
    with True show ?thesis by (simp add: dfs_step_def)
  next
    case False
    with Suc.prems obtain kids where kids: "ch i = Inr kids"
      and r: "forEach (depthFirstSearch n ch) kids (v @ [i]) = Inr v'"
      by (auto split: sum.splits)
    have s: "dfs_step ch (set kids) (v @ [i]) v'"
      by (rule dfs_step_forEach [OF _ r]) (rule Suc.IH)
    have e: "(i, k) \<in> child_rel ch" if "k \<in> set kids" for k
      using that kids by (auto simp: child_rel_def)
    have iv: "i \<in> set v'" using dfs_step_mono [OF s] by simp
    show ?thesis
    proof (rule dfs_stepI)
      show "set v \<subseteq> set v'" using dfs_step_mono [OF s] by simp
      show "{i} \<subseteq> set v'" using iv by simp
      show "\<exists>a \<in> {i}. (a, x) \<in> (child_rel ch)\<^sup>*" if "x \<in> set v'" "x \<notin> set v" for x
      proof (cases "x = i")
        case True
        then show ?thesis by simp
      next
        case False
        with that(2) have "x \<notin> set (v @ [i])" by simp
        from dfs_step_reach [OF s that(1) this] obtain k where
          "k \<in> set kids" and "(k, x) \<in> (child_rel ch)\<^sup>*" by blast
        with e [of k] have "(i, x) \<in> (child_rel ch)\<^sup>*"
          by (blast intro: converse_rtrancl_into_rtrancl)
        then show ?thesis by simp
      qed
      show "q \<in> set v'" if "p \<in> set v'" "p \<notin> set v" and pq: "(p, q) \<in> child_rel ch" for p q
      proof (cases "p = i")
        case True
        with pq kids have "q \<in> set kids" by (auto simp: child_rel_def)
        with dfs_step_starts [OF s] show ?thesis by blast
      next
        case False
        with that(2) have "p \<notin> set (v @ [i])" by simp
        from dfs_step_closed [OF s that(1) this pq] show ?thesis .
      qed
      show "distinct v'" if "distinct v"
        using dfs_step_distinct [OF s] that False by simp
    qed
  qed
qed

lemma depthFirstSearch_reachable:
  assumes "depthFirstSearch n ch i [] = Inr v"
  shows "set v = (child_rel ch)\<^sup>* `` {i}" and "distinct v"
proof -
  from depthFirstSearch_step [OF assms] have s: "dfs_step ch {i} [] v" .
  have c: "closed_under ch (set v)"
    unfolding closed_under_def using dfs_step_closed [OF s] by simp
  have i: "i \<in> set v" using dfs_step_starts [OF s] by simp
  show "set v = (child_rel ch)\<^sup>* `` {i}"
  proof (intro equalityI subsetI)
    fix x assume "x \<in> set v"
    with dfs_step_reach [OF s, of x] show "x \<in> (child_rel ch)\<^sup>* `` {i}" by simp
  next
    fix x assume "x \<in> (child_rel ch)\<^sup>* `` {i}"
    then have "(i, x) \<in> (child_rel ch)\<^sup>*" by simp
    from closed_under_rtrancl [OF this c i] show "x \<in> set v" .
  qed
  from dfs_step_distinct [OF s] show "distinct v" by simp
qed

section \<open>What firstPass leaves in its state\<close>

lemma pass_rel_next:
  "pass_rel ch s s' vs \<Longrightarrow> xPositionNext s' = xPositionNext s + length (filter (is_leaf ch) vs)"
  by (simp add: pass_rel_def)

lemma pass_rel_outside:
  "pass_rel ch s s' vs \<Longrightarrow> v \<notin> set vs \<Longrightarrow> xPosition s' v = xPosition s v \<and> depth s' v = depth s v"
  by (simp add: pass_rel_def)

lemma pass_rel_inside:
  "pass_rel ch s s' vs \<Longrightarrow> v \<in> set vs \<Longrightarrow> xPosition s' v \<noteq> None \<and> depth s' v \<noteq> None"
  by (simp add: pass_rel_def)

lemma pass_rel_Nil: "pass_rel ch s s []"
  by (simp add: pass_rel_def)

lemma pass_rel_append:
  assumes 1: "pass_rel ch s a vs" and 2: "pass_rel ch a b ws"
  shows "pass_rel ch s b (vs @ ws)"
  unfolding pass_rel_def
proof (intro conjI allI impI ballI)
  show "xPositionNext b = xPositionNext s + length (filter (is_leaf ch) (vs @ ws))"
    using pass_rel_next [OF 1] pass_rel_next [OF 2] by simp
next
  fix v assume v: "v \<notin> set (vs @ ws)"
  then have "v \<notin> set vs" "v \<notin> set ws" by simp_all
  with pass_rel_outside [OF 1, of v] pass_rel_outside [OF 2, of v]
  show "xPosition b v = xPosition s v" "depth b v = depth s v" by simp_all
next
  fix v assume v: "v \<in> set (vs @ ws)"
  show "xPosition b v \<noteq> None" "depth b v \<noteq> None"
  proof -
    have "xPosition b v \<noteq> None \<and> depth b v \<noteq> None"
    proof (cases "v \<in> set ws")
      case True
      from pass_rel_inside [OF 2 True] show ?thesis .
    next
      case False
      with v have "v \<in> set vs" by simp
      from pass_rel_inside [OF 1 this] pass_rel_outside [OF 2 False] show ?thesis by simp
    qed
    then show "xPosition b v \<noteq> None" "depth b v \<noteq> None" by simp_all
  qed
qed

lemma firstPass_Suc_Inr:
  assumes "firstPass (Suc n) ch i d s = Inr s'"
  obtains (leaf) "ch i = Inr []"
      "s' = s\<lparr>depth := (depth s)(i \<mapsto> d),
              xPosition := (xPosition s)(i \<mapsto> of_nat (xPositionNext s)),
              xPositionNext := xPositionNext s + 1\<rparr>"
  | (inner) kids s2 where "ch i = Inr kids" "kids \<noteq> []"
      "forEach (\<lambda>k. firstPass n ch k (d + 1)) kids (s\<lparr>depth := (depth s)(i \<mapsto> d)\<rparr>) = Inr s2"
      "s' = s2\<lparr>xPosition := (xPosition s2)
              (i \<mapsto> (Min ((\<lambda>k. the (xPosition s2 k)) ` set kids) +
                      Max ((\<lambda>k. the (xPosition s2 k)) ` set kids)) / 2)\<rparr>"
proof (cases "ch i")
  case (Inl e)
  with assms show ?thesis by simp
next
  case (Inr kids)
  show ?thesis
  proof (cases "kids = []")
    case True
    with assms Inr show ?thesis by (intro leaf) (auto simp: Let_def)
  next
    case False
    with assms Inr obtain s2 where
      "forEach (\<lambda>k. firstPass n ch k (d + 1)) kids (s\<lparr>depth := (depth s)(i \<mapsto> d)\<rparr>) = Inr s2"
      by (auto simp: Let_def split: sum.splits)
    with assms Inr False show ?thesis by (intro inner [of kids s2]) (auto simp: Let_def)
  qed
qed

lemma forEach_collect:
  assumes step: "\<And>k a b. k \<in> set kids \<Longrightarrow> f k a = Inr b \<Longrightarrow> \<exists>vs. g k = Inr vs \<and> pass_rel ch a b vs"
  shows "forEach f kids s = Inr s2 \<Longrightarrow> \<exists>vs. collect g kids = Inr vs \<and> pass_rel ch s s2 vs"
  using step
proof (induction kids arbitrary: s)
  case Nil
  then show ?case by (simp add: pass_rel_Nil)
next
  case (Cons k ks)
  from forEach_Cons_Inr [OF Cons.prems(1)] obtain a where
    a: "f k s = Inr a" and r: "forEach f ks a = Inr s2" by blast
  from Cons.prems(2) [OF _ a] obtain vs where g: "g k = Inr vs" and 1: "pass_rel ch s a vs"
    by auto
  from Cons.IH [OF r] Cons.prems(2) obtain ws where c: "collect g ks = Inr ws"
    and 2: "pass_rel ch a s2 ws" by auto
  from g c have "collect g (k # ks) = Inr (vs @ ws)" by simp
  with pass_rel_append [OF 1 2] show ?case by blast
qed

lemma firstPass_visits:
  "firstPass n ch i d s = Inr s' \<Longrightarrow> \<exists>vs. visits n ch i = Inr vs \<and> pass_rel ch s s' vs"
proof (induction n arbitrary: i d s s')
  case 0
  then show ?case by simp
next
  case (Suc n)
  from Suc.prems show ?case
  proof (cases rule: firstPass_Suc_Inr)
    case leaf
    then have "visits (Suc n) ch i = Inr [i]" by simp
    moreover have "pass_rel ch s s' [i]"
      using leaf by (simp add: pass_rel_def is_leaf_def)
    ultimately show ?thesis by blast
  next
    case (inner kids s2)
    let ?s1 = "s\<lparr>depth := (depth s)(i \<mapsto> d)\<rparr>"
    from forEach_collect [of kids "\<lambda>k. firstPass n ch k (d + 1)" "visits n ch" ch, OF _ inner(3)] Suc.IH
    obtain vs where c: "collect (visits n ch) kids = Inr vs" and p: "pass_rel ch ?s1 s2 vs"
      by blast
    from inner(1) c have v: "visits (Suc n) ch i = Inr (vs @ [i])" by simp
    have nl: "\<not> is_leaf ch i" using inner(1,2) by (simp add: is_leaf_def)
    have "pass_rel ch s s' (vs @ [i])"
      unfolding pass_rel_def
    proof (intro conjI allI impI ballI)
      show "xPositionNext s' = xPositionNext s + length (filter (is_leaf ch) (vs @ [i]))"
        using pass_rel_next [OF p] nl inner(4) by simp
    next
      fix v assume "v \<notin> set (vs @ [i])"
      then have "v \<notin> set vs" "v \<noteq> i" by simp_all
      with pass_rel_outside [OF p, of v] inner(4)
      show "xPosition s' v = xPosition s v" "depth s' v = depth s v" by simp_all
    next
      fix v assume v: "v \<in> set (vs @ [i])"
      have "xPosition s' v \<noteq> None \<and> depth s' v \<noteq> None"
      proof (cases "v \<in> set vs")
        case True
        from pass_rel_inside [OF p True] inner(4) show ?thesis by (simp del: not_None_eq)
      next
        case False
        with v have "v = i" by simp
        with pass_rel_outside [OF p False] inner(4) show ?thesis by (simp del: not_None_eq)
      qed
      then show "xPosition s' v \<noteq> None" "depth s' v \<noteq> None" by simp_all
    qed
    with v show ?thesis by blast
  qed
qed

lemma collect_forEach:
  assumes step: "\<And>k vs a. k \<in> set kids \<Longrightarrow> g k = Inr vs \<Longrightarrow> \<exists>b. f k a = Inr b"
  shows "collect g kids = Inr vs \<Longrightarrow> \<exists>s2. forEach f kids s = Inr s2"
  using step
proof (induction kids arbitrary: s vs)
  case Nil
  then show ?case by simp
next
  case (Cons k ks)
  from collect_Cons_Inr [OF Cons.prems(1)] obtain us ws where
    g: "g k = Inr us" and c: "collect g ks = Inr ws" by blast
  from Cons.prems(2) [OF _ g, of s] obtain a where a: "f k s = Inr a" by auto
  from Cons.IH [OF c, of a] Cons.prems(2) obtain s2 where "forEach f ks a = Inr s2" by auto
  with a show ?case by simp
qed

lemma visits_firstPass:
  "visits n ch i = Inr vs \<Longrightarrow> \<exists>s'. firstPass n ch i d s = Inr s'"
proof (induction n arbitrary: i d s vs)
  case 0
  then show ?case by simp
next
  case (Suc n)
  from visits_Suc_Inr [OF Suc.prems] obtain kids ws where
    kids: "ch i = Inr kids" and c: "collect (visits n ch) kids = Inr ws" by blast
  have "\<exists>s2. forEach (\<lambda>k. firstPass n ch k (d + 1)) kids (s\<lparr>depth := (depth s)(i \<mapsto> d)\<rparr>) = Inr s2"
    by (rule collect_forEach [OF _ c]) (rule Suc.IH)
  then obtain s2 where
    "forEach (\<lambda>k. firstPass n ch k (d + 1)) kids (s\<lparr>depth := (depth s)(i \<mapsto> d)\<rparr>) = Inr s2" ..
  with kids show ?case by (simp add: Let_def)
qed

lemma visits_depthFirstSearch:
  "visits n ch i = Inr vs \<Longrightarrow> \<exists>v'. depthFirstSearch n ch i v = Inr v'"
proof (induction n arbitrary: i v vs)
  case 0
  then show ?case by simp
next
  case (Suc n)
  from visits_Suc_Inr [OF Suc.prems] obtain kids ws where
    kids: "ch i = Inr kids" and c: "collect (visits n ch) kids = Inr ws" by blast
  have "\<exists>v'. forEach (depthFirstSearch n ch) kids (v @ [i]) = Inr v'"
    by (rule collect_forEach [OF _ c]) (rule Suc.IH)
  with kids show ?case by simp
qed

section \<open>A traversal that visits no identifier twice\<close>

lemma mean_of_kids_cong:
  "(\<And>k. k \<in> set kids \<Longrightarrow> xPosition s' k = xPosition s k) \<Longrightarrow> mean_of_kids s' kids = mean_of_kids s kids"
proof -
  assume "\<And>k. k \<in> set kids \<Longrightarrow> xPosition s' k = xPosition s k"
  then have "(\<lambda>k. the (xPosition s' k)) ` set kids = (\<lambda>k. the (xPosition s k)) ` set kids"
    by (intro image_cong) simp_all
  then show ?thesis by (simp add: mean_of_kids_def)
qed

lemma tree_rel_leaf:
  "tree_rel ch s s' vs \<Longrightarrow> j < length (filter (is_leaf ch) vs) \<Longrightarrow>
     xPosition s' (filter (is_leaf ch) vs ! j) = Some (of_nat (xPositionNext s + j))"
  by (simp add: tree_rel_def)

lemma tree_rel_mean:
  "tree_rel ch s s' vs \<Longrightarrow> p \<in> set vs \<Longrightarrow> ch p = Inr kids \<Longrightarrow> kids \<noteq> [] \<Longrightarrow>
     xPosition s' p = Some (mean_of_kids s' kids)"
  unfolding tree_rel_def by blast

lemma tree_rel_depth:
  "tree_rel ch s s' vs \<Longrightarrow> p \<in> set vs \<Longrightarrow> ch p = Inr kids \<Longrightarrow> k \<in> set kids \<Longrightarrow>
     \<exists>dp. depth s' p = Some dp \<and> depth s' k = Some (Suc dp)"
  unfolding tree_rel_def by blast

lemma tree_relI:
  assumes "\<And>j. j < length (filter (is_leaf ch) vs) \<Longrightarrow>
         xPosition s' (filter (is_leaf ch) vs ! j) = Some (of_nat (xPositionNext s + j))"
    and "\<And>p kids. p \<in> set vs \<Longrightarrow> ch p = Inr kids \<Longrightarrow> kids \<noteq> [] \<Longrightarrow>
         xPosition s' p = Some (mean_of_kids s' kids)"
    and "\<And>p kids k. p \<in> set vs \<Longrightarrow> ch p = Inr kids \<Longrightarrow> k \<in> set kids \<Longrightarrow>
         \<exists>dp. depth s' p = Some dp \<and> depth s' k = Some (Suc dp)"
  shows "tree_rel ch s s' vs"
  unfolding tree_rel_def using assms by blast

lemma tree_rel_Nil: "tree_rel ch s s' []"
  by (simp add: tree_rel_def)

lemma closed_kids:
  "closed_under ch A \<Longrightarrow> p \<in> A \<Longrightarrow> ch p = Inr kids \<Longrightarrow> k \<in> set kids \<Longrightarrow> k \<in> A"
  unfolding closed_under_def child_rel_def by blast

lemma tree_rel_append:
  assumes p1: "pass_rel ch s a vs" and p2: "pass_rel ch a b ws"
    and t1: "tree_rel ch s a vs" and t2: "tree_rel ch a b ws"
    and d: "set vs \<inter> set ws = {}" and c: "closed_under ch (set vs)"
  shows "tree_rel ch s b (vs @ ws)"
proof (rule tree_relI)
  have same: "xPosition b v = xPosition a v \<and> depth b v = depth a v" if "v \<in> set vs" for v
  proof -
    from that d have "v \<notin> set ws" by blast
    from pass_rel_outside [OF p2 this] show ?thesis .
  qed
  {
    fix j assume j: "j < length (filter (is_leaf ch) (vs @ ws))"
    let ?l = "filter (is_leaf ch) vs" and ?r = "filter (is_leaf ch) ws"
    show "xPosition b (filter (is_leaf ch) (vs @ ws) ! j) = Some (of_nat (xPositionNext s + j))"
    proof (cases "j < length ?l")
      case True
      then have "?l ! j \<in> set ?l" by (rule nth_mem)
      then have "?l ! j \<in> set vs" by simp
      from same [OF this] tree_rel_leaf [OF t1 True] True show ?thesis
        by (simp add: nth_append)
    next
      case False
      with j have "j - length ?l < length ?r" by simp
      from tree_rel_leaf [OF t2 this] pass_rel_next [OF p1] False show ?thesis
        by (simp add: nth_append)
    qed
  next
    fix p kids assume p: "p \<in> set (vs @ ws)" and k: "ch p = Inr kids" and ne: "kids \<noteq> []"
    show "xPosition b p = Some (mean_of_kids b kids)"
    proof (cases "p \<in> set vs")
      case True
      have "mean_of_kids b kids = mean_of_kids a kids"
        by (rule mean_of_kids_cong) (simp add: same closed_kids [OF c True k])
      with same [OF True] tree_rel_mean [OF t1 True k ne] show ?thesis by simp
    next
      case False
      with p have "p \<in> set ws" by simp
      from tree_rel_mean [OF t2 this k ne] show ?thesis .
    qed
  next
    fix p kids q assume p: "p \<in> set (vs @ ws)" and k: "ch p = Inr kids" and q: "q \<in> set kids"
    show "\<exists>dp. depth b p = Some dp \<and> depth b q = Some (Suc dp)"
    proof (cases "p \<in> set vs")
      case True
      from closed_kids [OF c True k q] have "q \<in> set vs" .
      with same [OF True] same [OF this] tree_rel_depth [OF t1 True k q] show ?thesis by simp
    next
      case False
      with p have "p \<in> set ws" by simp
      from tree_rel_depth [OF t2 this k q] show ?thesis .
    qed
  }
qed

lemma collect_visits_closed:
  assumes "collect (visits n ch) kids = Inr vs"
  shows "closed_under ch (set vs)" and "set kids \<subseteq> set vs"
proof -
  show "closed_under ch (set vs)"
    unfolding closed_under_def
  proof (intro allI impI)
    fix p k assume p: "p \<in> set vs" and pk: "(p, k) \<in> child_rel ch"
    from collect_set [OF assms p] obtain a ws where
      a: "a \<in> set kids" and w: "visits n ch a = Inr ws" and pw: "p \<in> set ws" by blast
    from visits_facts [OF w] pw pk have "k \<in> set ws" by (auto simp: closed_under_def)
    with collect_superset [OF assms a w] show "k \<in> set vs" by auto
  qed
  show "set kids \<subseteq> set vs"
  proof
    fix k assume k: "k \<in> set kids"
    from collect_defined [OF assms k] obtain ws where w: "visits n ch k = Inr ws" by blast
    from visits_facts [OF w] have "k \<in> set ws" by blast
    with collect_superset [OF assms k w] show "k \<in> set vs" by blast
  qed
qed

lemma forEach_kids_positioned:
  assumes "forEach (\<lambda>k. firstPass n ch k d) kids s = Inr s2" and "k \<in> set kids"
  shows "xPosition s2 k \<noteq> None"
proof -
  from forEach_collect [of kids "\<lambda>k. firstPass n ch k d" "visits n ch" ch, OF _ assms(1)]
    firstPass_visits
  obtain ws where c: "collect (visits n ch) kids = Inr ws" and p: "pass_rel ch s s2 ws"
    by blast
  from collect_visits_closed(2) [OF c] assms(2) have "k \<in> set ws" by blast
  from pass_rel_inside [OF p this] show ?thesis by simp
qed

lemma forEach_tree:
  assumes IH: "\<And>k d s s' vs. visits n ch k = Inr vs \<Longrightarrow> distinct vs \<Longrightarrow>
      firstPass n ch k d s = Inr s' \<Longrightarrow> tree_rel ch s s' vs \<and> depth s' k = Some d"
  shows "collect (visits n ch) kids = Inr vs \<Longrightarrow> distinct vs \<Longrightarrow>
     forEach (\<lambda>k. firstPass n ch k d) kids s = Inr s2 \<Longrightarrow>
     pass_rel ch s s2 vs \<and> tree_rel ch s s2 vs \<and> (\<forall>k \<in> set kids. depth s2 k = Some d)"
proof (induction kids arbitrary: s vs)
  case Nil
  then show ?case by (simp add: pass_rel_Nil tree_rel_Nil)
next
  case (Cons k ks)
  from collect_Cons_Inr [OF Cons.prems(1)] obtain us ws where
    u: "visits n ch k = Inr us" and c: "collect (visits n ch) ks = Inr ws" and vs: "vs = us @ ws"
    by blast
  from forEach_Cons_Inr [OF Cons.prems(3)] obtain a where
    a: "firstPass n ch k d s = Inr a" and r: "forEach (\<lambda>k. firstPass n ch k d) ks a = Inr s2"
    by blast
  from Cons.prems(2) vs have du: "distinct us" and dw: "distinct ws" and dj: "set us \<inter> set ws = {}"
    by simp_all
  from firstPass_visits [OF a] u have p1: "pass_rel ch s a us" by simp
  from IH [OF u du a] have t1: "tree_rel ch s a us" and dk: "depth a k = Some d" by simp_all
  from Cons.IH [OF c dw r] have p2: "pass_rel ch a s2 ws" and t2: "tree_rel ch a s2 ws"
    and dks: "\<forall>k \<in> set ks. depth s2 k = Some d" by simp_all
  from visits_facts [OF u] have cu: "closed_under ch (set us)" and ku: "k \<in> set us" by simp_all
  from ku dj have "k \<notin> set ws" by blast
  from pass_rel_outside [OF p2 this] dk have "depth s2 k = Some d" by simp
  with dks pass_rel_append [OF p1 p2] tree_rel_append [OF p1 p2 t1 t2 dj cu] vs
  show ?case by simp
qed

lemma firstPass_tree:
  "visits n ch i = Inr vs \<Longrightarrow> distinct vs \<Longrightarrow> firstPass n ch i d s = Inr s' \<Longrightarrow>
     tree_rel ch s s' vs \<and> depth s' i = Some d"
proof (induction n arbitrary: i d s s' vs)
  case 0
  then show ?case by simp
next
  case (Suc n)
  from Suc.prems(3) show ?case
  proof (cases rule: firstPass_Suc_Inr)
    case leaf
    with Suc.prems(1) have vs: "vs = [i]" by simp
    have l: "is_leaf ch i" using leaf(1) by (simp add: is_leaf_def)
    have "tree_rel ch s s' [i]"
    proof (rule tree_relI)
      show "xPosition s' (filter (is_leaf ch) [i] ! j) = Some (of_nat (xPositionNext s + j))"
        if "j < length (filter (is_leaf ch) [i])" for j
        using that l leaf(2) by simp
      show "xPosition s' p = Some (mean_of_kids s' kids)"
        if "p \<in> set [i]" "ch p = Inr kids" "kids \<noteq> []" for p kids
        using that leaf(1) by simp
      show "\<exists>dp. depth s' p = Some dp \<and> depth s' k = Some (Suc dp)"
        if "p \<in> set [i]" "ch p = Inr kids" "k \<in> set kids" for p kids k
        using that leaf(1) by simp
    qed
    with vs leaf(2) show ?thesis by simp
  next
    case (inner kids s2)
    let ?s1 = "s\<lparr>depth := (depth s)(i \<mapsto> d)\<rparr>"
    from Suc.prems(1) inner(1) obtain ws where
      c: "collect (visits n ch) kids = Inr ws" and vs: "vs = ws @ [i]"
      by (auto split: sum.splits)
    from Suc.prems(2) vs have dw: "distinct ws" and iw: "i \<notin> set ws" by simp_all
    have "pass_rel ch ?s1 s2 ws \<and> tree_rel ch ?s1 s2 ws \<and>
        (\<forall>k \<in> set kids. depth s2 k = Some (d + 1))"
      by (rule forEach_tree [OF Suc.IH c dw inner(3)])
    then have p: "pass_rel ch ?s1 s2 ws" and t: "tree_rel ch ?s1 s2 ws" and
      dk: "\<forall>k \<in> set kids. depth s2 k = Some (d + 1)" by blast+
    from collect_visits_closed [OF c] have cw: "closed_under ch (set ws)" and kw: "set kids \<subseteq> set ws"
      by simp_all
    have nl: "\<not> is_leaf ch i" using inner(1,2) by (simp add: is_leaf_def)
    have xs: "xPosition s' = (xPosition s2)(i \<mapsto> mean_of_kids s2 kids)"
      by (simp add: inner(4) mean_of_kids_def)
    have x: "xPosition s' v = xPosition s2 v" if "v \<in> set ws" for v
    proof -
      from that iw have "v \<noteq> i" by blast
      then show ?thesis by (simp add: xs)
    qed
    have dp: "depth s' = depth s2" by (simp add: inner(4))
    have m: "mean_of_kids s' ks = mean_of_kids s2 ks" if "set ks \<subseteq> set ws" for ks
      by (rule mean_of_kids_cong) (use that x in blast)
    have di: "depth s' i = Some d"
      using pass_rel_outside [OF p iw] dp by simp
    have "tree_rel ch s s' (ws @ [i])"
    proof (rule tree_relI)
      fix j assume "j < length (filter (is_leaf ch) (ws @ [i]))"
      with nl have j: "j < length (filter (is_leaf ch) ws)" by simp
      then have "filter (is_leaf ch) ws ! j \<in> set (filter (is_leaf ch) ws)" by (rule nth_mem)
      then have "filter (is_leaf ch) ws ! j \<in> set ws" by simp
      from x [OF this] tree_rel_leaf [OF t j] nl
      show "xPosition s' (filter (is_leaf ch) (ws @ [i]) ! j) = Some (of_nat (xPositionNext s + j))"
        by (simp del: of_nat_add)
    next
      fix p ks assume p': "p \<in> set (ws @ [i])" and k: "ch p = Inr ks" and ne: "ks \<noteq> []"
      show "xPosition s' p = Some (mean_of_kids s' ks)"
      proof (cases "p \<in> set ws")
        case True
        have "set ks \<subseteq> set ws" using closed_kids [OF cw True k] by blast
        from m [OF this] x [OF True] tree_rel_mean [OF t True k ne] show ?thesis by simp
      next
        case False
        with p' have pi: "p = i" by simp
        with k inner(1) have "ks = kids" by simp
        with m [OF kw] pi show ?thesis by (simp add: xs)
      qed
    next
      fix p ks q assume p': "p \<in> set (ws @ [i])" and k: "ch p = Inr ks" and q: "q \<in> set ks"
      show "\<exists>dp. depth s' p = Some dp \<and> depth s' q = Some (Suc dp)"
      proof (cases "p \<in> set ws")
        case True
        from tree_rel_depth [OF t True k q] dp show ?thesis by simp
      next
        case False
        with p' have pi: "p = i" by simp
        with k inner(1) have "ks = kids" by simp
        with q dk dp di pi show ?thesis by simp
      qed
    qed
    with vs di show ?thesis by simp
  qed
qed

section \<open>The result of layoutTree\<close>

lemma fold_coords:
  "fold (\<lambda>i c. c(i \<mapsto> f i)) v c0 k = (if k \<in> set v then Some (f k) else c0 k)"
  by (induction v arbitrary: c0) auto

lemma layoutTree_Inr:
  assumes "layoutTree n c m = Inr l"
  shows "\<exists>s. firstPass n (children_of c m) (root_id m) 0 initial_pass_state = Inr s \<and>
    depthFirstSearch n (children_of c m) (root_id m) [] = Inr (vis l) \<and>
    (\<forall>k. coords l k = (if k \<in> set (vis l) then Some (coord_of s k) else None))"
proof -
  from assms obtain s v where
    s: "firstPass n (children_of c m) (root_id m) 0 initial_pass_state = Inr s" and
    v: "depthFirstSearch n (children_of c m) (root_id m) [] = Inr v" and
    l: "l = \<lparr>coords = fold (\<lambda>i c. c(i \<mapsto> coord_of s i)) v Map.empty, vis = v\<rparr>"
    by (auto simp: layoutTree_def split: sum.splits)
  show ?thesis
    by (rule exI [of _ s]) (simp add: s v l fold_coords)
qed

lemma layoutTree_vis:
  assumes "layoutTree n c m = Inr l"
  shows "set (vis l) = (child_rel (children_of c m))\<^sup>* `` {root_id m}" and "distinct (vis l)"
    and "dom (coords l) = set (vis l)"
proof -
  from layoutTree_Inr [OF assms] obtain s where
    v: "depthFirstSearch n (children_of c m) (root_id m) [] = Inr (vis l)" and
    k: "\<And>k. coords l k = (if k \<in> set (vis l) then Some (coord_of s k) else None)"
    by blast
  from depthFirstSearch_reachable [OF v]
  show "set (vis l) = (child_rel (children_of c m))\<^sup>* `` {root_id m}" and "distinct (vis l)" .
  show "dom (coords l) = set (vis l)"
    by (auto simp: dom_def k)
qed

lemma collect_cong_result:
  "collect f ks = Inr r \<Longrightarrow> (\<And>k vs. k \<in> set ks \<Longrightarrow> f k = Inr vs \<Longrightarrow> g k = Inr vs) \<Longrightarrow>
   collect g ks = Inr r"
proof (induction ks arbitrary: r)
  case Nil
  then show ?case by simp
next
  case (Cons k ks)
  from collect_Cons_Inr [OF Cons.prems(1)] obtain vs ws where
    f: "f k = Inr vs" and c: "collect f ks = Inr ws" and r: "r = vs @ ws" by blast
  have "g k = Inr vs" using Cons.prems(2) f by simp
  moreover have "collect g ks = Inr ws" using Cons.IH [OF c] Cons.prems(2) by simp
  ultimately show ?case using r by simp
qed

lemma visits_Suc: "visits n ch i = Inr vs \<Longrightarrow> visits (Suc n) ch i = Inr vs"
proof (induction n arbitrary: i vs)
  case 0
  then show ?case by simp
next
  case (Suc n)
  from visits_Suc_Inr [OF Suc.prems] obtain kids ws where
    kids: "ch i = Inr kids" and c: "collect (visits n ch) kids = Inr ws" and vs: "vs = ws @ [i]"
    by blast
  have "collect (visits (Suc n) ch) kids = Inr ws"
    by (rule collect_cong_result [OF c]) (rule Suc.IH)
  with kids vs show ?case by (subst visits.simps) simp
qed

lemma visits_below:
  "visits n ch i = Inr vs \<Longrightarrow> v \<in> set vs \<Longrightarrow> \<exists>ws. visits n ch v = Inr ws"
proof (induction n arbitrary: i vs)
  case 0
  then show ?case by simp
next
  case (Suc n)
  from visits_Suc_Inr [OF Suc.prems(1)] obtain kids ws where
    kids: "ch i = Inr kids" and c: "collect (visits n ch) kids = Inr ws" and vs: "vs = ws @ [i]"
    by blast
  show ?case
  proof (cases "v \<in> set ws")
    case True
    from collect_set [OF c True] obtain k us where
      u: "visits n ch k = Inr us" and v: "v \<in> set us" by blast
    from Suc.IH [OF u v] obtain xs where "visits n ch v = Inr xs" ..
    from visits_Suc [OF this] show ?thesis ..
  next
    case False
    with Suc.prems(2) vs have "v = i" by simp
    with Suc.prems(1) show ?thesis by blast
  qed
qed

lemma visits_no_self:
  "visits n ch i = Inr vs \<Longrightarrow> i \<notin> set (butlast vs)"
proof (induction n arbitrary: vs)
  case 0
  then show ?case by simp
next
  case (Suc n)
  from visits_Suc_Inr [OF Suc.prems] obtain kids ws where
    kids: "ch i = Inr kids" and c: "collect (visits n ch) kids = Inr ws" and vs: "vs = ws @ [i]"
    by blast
  show ?case
  proof
    assume "i \<in> set (butlast vs)"
    with vs have iw: "i \<in> set ws" by simp
    from collect_set [OF c iw] obtain k us where
      u: "visits n ch k = Inr us" and iu: "i \<in> set us" by blast
    from visits_below [OF u iu] obtain xs where x: "visits n ch i = Inr xs" ..
    from visits_Suc [OF x] Suc.prems have "xs = vs" by simp
    with Suc.IH [OF x] vs iw show False by simp
  qed
qed

lemma firstPass_depth_self:
  assumes "firstPass n ch i d s = Inr s'"
  shows "depth s' i = Some d"
proof (cases n)
  case 0
  with assms show ?thesis by simp
next
  case (Suc k)
  from assms [unfolded Suc] show ?thesis
  proof (cases rule: firstPass_Suc_Inr)
    case leaf
    then show ?thesis by simp
  next
    case (inner kids s2)
    let ?s1 = "s\<lparr>depth := (depth s)(i \<mapsto> d)\<rparr>"
    from forEach_collect [of kids "\<lambda>k'. firstPass k ch k' (d + 1)" "visits k ch" ch, OF _ inner(3)]
      firstPass_visits
    obtain ws where c: "collect (visits k ch) kids = Inr ws" and p: "pass_rel ch ?s1 s2 ws"
      by blast
    from inner(1) c have "visits (Suc k) ch i = Inr (ws @ [i])" by simp
    from visits_no_self [OF this] have "i \<notin> set ws" by simp
    from pass_rel_outside [OF p this] inner(4) show ?thesis by simp
  qed
qed

lemma layoutTree_pass:
  assumes "layoutTree n c m = Inr l"
  shows "\<exists>s vs. firstPass n (children_of c m) (root_id m) 0 initial_pass_state = Inr s \<and>
     visits n (children_of c m) (root_id m) = Inr vs \<and>
     pass_rel (children_of c m) initial_pass_state s vs \<and> set (vis l) = set vs \<and>
     (\<forall>k. coords l k = (if k \<in> set vs then Some (coord_of s k) else None))"
proof -
  from layoutTree_Inr [OF assms] obtain s where
    s: "firstPass n (children_of c m) (root_id m) 0 initial_pass_state = Inr s" and
    k: "\<forall>k. coords l k = (if k \<in> set (vis l) then Some (coord_of s k) else None)"
    by blast
  from firstPass_visits [OF s] obtain vs where
    v: "visits n (children_of c m) (root_id m) = Inr vs" and
    p: "pass_rel (children_of c m) initial_pass_state s vs" by blast
  have "set (vis l) = set vs"
    using layoutTree_vis(1) [OF assms] visits_set [OF v] by simp
  with s v p k show ?thesis by auto
qed

lemma layoutTree_positioned:
  assumes "layoutTree n c m = Inr l"
    and "firstPass n (children_of c m) (root_id m) 0 initial_pass_state = Inr s"
    and "i \<in> set (vis l)"
  shows "xPosition s i \<noteq> None"
proof -
  from layoutTree_pass [OF assms(1)] assms(2) obtain vs where
    p: "pass_rel (children_of c m) initial_pass_state s vs" and sv: "set (vis l) = set vs"
    by auto
  from assms(3) sv have "i \<in> set vs" by simp
  from pass_rel_inside [OF p this] show ?thesis by simp
qed

section \<open>Chains\<close>




section \<open>Collapsing\<close>

lemma visits_mono: "visits n ch i = Inr vs \<Longrightarrow> n \<le> k \<Longrightarrow> visits k ch i = Inr vs"
proof (induction k)
  case 0
  then show ?case by simp
next
  case (Suc k)
  show ?case
  proof (cases "n = Suc k")
    case True
    with Suc.prems show ?thesis by simp
  next
    case False
    with Suc.prems have "n \<le> k" by simp
    from visits_Suc [OF Suc.IH [OF Suc.prems(1) this]] show ?thesis .
  qed
qed

lemma children_of_collapsed:
  "children_of c m p = (if p \<in> c then Inr [] else children_of {} m p)"
  by (simp add: children_of_def visibleChildren_def)

lemma child_rel_collapsed:
  "((p, k) \<in> child_rel (children_of c m)) = (p \<notin> c \<and> (p, k) \<in> child_rel (children_of {} m))"
  by (simp add: child_rel_def children_of_collapsed [of c])

lemma stays_visible:
  assumes "(r, i) \<in> (child_rel (children_of c m))\<^sup>*"
  shows "(r, i) \<in> (child_rel (children_of (insert i c) m))\<^sup>*"
proof -
  let ?E = "child_rel (children_of c m)" and ?E' = "child_rel (children_of (insert i c) m)"
  have "(r, v) \<in> ?E\<^sup>* \<Longrightarrow> (r, v) \<in> ?E'\<^sup>* \<or> (r, i) \<in> ?E'\<^sup>*" for v
  proof (induction rule: rtrancl_induct)
    case base
    show ?case by simp
  next
    case (step y z)
    show ?case
    proof (cases "(r, i) \<in> ?E'\<^sup>*")
      case True
      then show ?thesis by simp
    next
      case False
      with step.IH have y: "(r, y) \<in> ?E'\<^sup>*" by simp
      with False have "y \<noteq> i" by auto
      with step.hyps(2) have "(y, z) \<in> ?E'"
        by (simp add: child_rel_collapsed [of _ _ c] child_rel_collapsed [of _ _ "insert i c"])
      with y show ?thesis by (auto intro: rtrancl_into_rtrancl)
    qed
  qed
  from this [OF assms] show ?thesis by simp
qed

lemma hidden_below:
  assumes sp: "single_parent (children_of {} m) r" and a: "a \<in> c"
  shows "(a, k) \<in> (child_rel (children_of {} m))\<^sup>+ \<Longrightarrow> (r, k) \<notin> (child_rel (children_of c m))\<^sup>*"
proof (induction rule: trancl_induct)
  case (base y)
  show ?case
  proof
    assume "(r, y) \<in> (child_rel (children_of c m))\<^sup>*"
    then show False
    proof (cases rule: rtranclE)
      case base
      with \<open>(a, y) \<in> child_rel (children_of {} m)\<close> sp show False by (auto simp: single_parent_def)
    next
      case (step u)
      from step(2) have "u \<notin> c" and "(u, y) \<in> child_rel (children_of {} m)"
        by (simp_all add: child_rel_collapsed [of _ _ c])
      with \<open>(a, y) \<in> child_rel (children_of {} m)\<close> sp have "u = a"
        unfolding single_parent_def by blast
      with \<open>u \<notin> c\<close> a show False by simp
    qed
  qed
next
  case (step y z)
  show ?case
  proof
    assume "(r, z) \<in> (child_rel (children_of c m))\<^sup>*"
    then show False
    proof (cases rule: rtranclE)
      case base
      with step.hyps(2) sp show False by (auto simp: single_parent_def)
    next
      case (step u)
      from step(2) have "(u, z) \<in> child_rel (children_of {} m)"
        by (simp add: child_rel_collapsed [of _ _ c])
      with \<open>(y, z) \<in> child_rel (children_of {} m)\<close> sp have "u = y"
        unfolding single_parent_def by blast
      with step(1) \<open>(r, y) \<notin> (child_rel (children_of c m))\<^sup>*\<close> show False by simp
    qed
  qed
qed

lemma collect_all_defined:
  "(\<And>k. k \<in> set ks \<Longrightarrow> \<exists>vs. g k = Inr vs) \<Longrightarrow> \<exists>r. collect g ks = Inr r"
proof (induction ks)
  case Nil
  then show ?case by simp
next
  case (Cons k ks)
  from Cons.prems [of k] obtain vs where "g k = Inr vs" by auto
  moreover from Cons.IH Cons.prems obtain r where "collect g ks = Inr r" by auto
  ultimately show ?case by simp
qed

lemma visits_collapse:
  "visits n (children_of c m) i = Inr vs \<Longrightarrow> \<exists>vs'. visits n (children_of (insert j c) m) i = Inr vs'"
proof (induction n arbitrary: i vs)
  case 0
  then show ?case by simp
next
  case (Suc n)
  show ?case
  proof (cases "i \<in> insert j c")
    case True
    then have "children_of (insert j c) m i = Inr []" by (simp add: children_of_collapsed [of "insert j c"])
    then show ?thesis by simp
  next
    case False
    then have eq: "children_of (insert j c) m i = children_of c m i"
      by (simp add: children_of_collapsed [of "insert j c"] children_of_collapsed [of c])
    from visits_Suc_Inr [OF Suc.prems] obtain kids ws where
      kids: "children_of c m i = Inr kids" and
      c: "collect (visits n (children_of c m)) kids = Inr ws" by blast
    have "\<exists>r. collect (visits n (children_of (insert j c) m)) kids = Inr r"
    proof (rule collect_all_defined)
      fix k assume "k \<in> set kids"
      from collect_defined [OF c this] obtain us where "visits n (children_of c m) k = Inr us" ..
      from Suc.IH [OF this] show "\<exists>vs. visits n (children_of (insert j c) m) k = Inr vs" .
    qed
    with eq kids show ?thesis by auto
  qed
qed

lemma visits_layoutTree:
  assumes "visits n (children_of c m) (root_id m) = Inr vs"
  shows "\<exists>l. layoutTree n c m = Inr l"
proof -
  from visits_firstPass [OF assms] obtain s where
    "firstPass n (children_of c m) (root_id m) 0 initial_pass_state = Inr s" by blast
  moreover from visits_depthFirstSearch [OF assms] obtain v where
    "depthFirstSearch n (children_of c m) (root_id m) [] = Inr v" by blast
  ultimately show ?thesis by (simp add: layoutTree_def)
qed

section \<open>Trees\<close>

lemma single_parent_no_parent: "single_parent ch r \<Longrightarrow> (p, r) \<notin> child_rel ch"
  by (simp add: single_parent_def)

lemma single_parent_unique:
  "single_parent ch r \<Longrightarrow> (p, k) \<in> child_rel ch \<Longrightarrow> (q, k) \<in> child_rel ch \<Longrightarrow> p = q"
  unfolding single_parent_def by blast

lemma tree_acyclic:
  assumes sp: "single_parent ch r"
  shows "(r, i) \<in> (child_rel ch)\<^sup>* \<Longrightarrow> (i, i) \<notin> (child_rel ch)\<^sup>+"
proof (induction rule: rtrancl_induct)
  case base
  show ?case
  proof
    assume "(r, r) \<in> (child_rel ch)\<^sup>+"
    then obtain z where "(z, r) \<in> child_rel ch" by (auto dest: tranclD2)
    with single_parent_no_parent [OF sp] show False by blast
  qed
next
  case (step y z)
  show ?case
  proof
    assume "(z, z) \<in> (child_rel ch)\<^sup>+"
    then obtain w where zw: "(z, w) \<in> (child_rel ch)\<^sup>*" and wz: "(w, z) \<in> child_rel ch"
      by (auto dest: tranclD2)
    from single_parent_unique [OF sp wz step.hyps(2)] have "w = y" .
    with zw step.hyps(2) have "(y, y) \<in> (child_rel ch)\<^sup>+" by auto
    with step.IH show False by blast
  qed
qed

lemma tree_comparable:
  assumes sp: "single_parent ch r"
  shows "(a, v) \<in> (child_rel ch)\<^sup>* \<Longrightarrow> (b, v) \<in> (child_rel ch)\<^sup>* \<Longrightarrow>
     (a, b) \<in> (child_rel ch)\<^sup>* \<or> (b, a) \<in> (child_rel ch)\<^sup>*"
proof (induction rule: rtrancl_induct)
  case base
  then show ?case by simp
next
  case (step y z)
  from step.prems show ?case
  proof (cases rule: rtranclE)
    case base
    with step.hyps show ?thesis by auto
  next
    case (step w)
    from single_parent_unique [OF sp step(2) \<open>(y, z) \<in> child_rel ch\<close>] have "w = y" .
    with step(1) have "(b, y) \<in> (child_rel ch)\<^sup>*" by simp
    from step.IH [OF this] show ?thesis .
  qed
qed

lemma collect_distinct:
  assumes "\<And>k vs. k \<in> set ks \<Longrightarrow> f k = Inr vs \<Longrightarrow> distinct vs"
    and "\<And>k k' vs vs'. k \<in> set ks \<Longrightarrow> k' \<in> set ks \<Longrightarrow> k \<noteq> k' \<Longrightarrow> f k = Inr vs \<Longrightarrow>
           f k' = Inr vs' \<Longrightarrow> set vs \<inter> set vs' = {}"
  shows "collect f ks = Inr r \<Longrightarrow> distinct ks \<Longrightarrow> distinct r"
  using assms
proof (induction ks arbitrary: r)
  case Nil
  then show ?case by simp
next
  case (Cons k ks)
  from collect_Cons_Inr [OF Cons.prems(1)] obtain vs ws where
    f: "f k = Inr vs" and c: "collect f ks = Inr ws" and r: "r = vs @ ws" by blast
  from Cons.prems(2) have dk: "distinct ks" and nk: "k \<notin> set ks" by simp_all
  have 1: "distinct vs" using Cons.prems(3) [of k vs] f by simp
  have 2: "distinct ws"
  proof (rule Cons.IH [OF c dk])
    show "distinct vs'" if "k' \<in> set ks" "f k' = Inr vs'" for k' vs'
      using Cons.prems(3) [of k' vs'] that by simp
    show "set u \<inter> set u' = {}"
      if "a \<in> set ks" "a' \<in> set ks" "a \<noteq> a'" "f a = Inr u" "f a' = Inr u'" for a a' u u'
      using Cons.prems(4) [of a a' u u'] that by simp
  qed
  have 3: "set vs \<inter> set ws = {}"
  proof (rule ccontr)
    assume "set vs \<inter> set ws \<noteq> {}"
    then obtain x where xv: "x \<in> set vs" and xw: "x \<in> set ws" by blast
    from collect_set [OF c xw] obtain k' us where
      k': "k' \<in> set ks" and u: "f k' = Inr us" and xu: "x \<in> set us" by blast
    from k' nk have "k \<noteq> k'" by blast
    from Cons.prems(4) [of k k' vs us] k' this f u have "set vs \<inter> set us = {}" by simp
    with xv xu show False by blast
  qed
  from 1 2 3 r show ?case by simp
qed

lemma visits_distinct_tree:
  assumes sp: "single_parent ch r" and dk: "\<And>p kids. ch p = Inr kids \<Longrightarrow> distinct kids"
  shows "visits n ch i = Inr vs \<Longrightarrow> (r, i) \<in> (child_rel ch)\<^sup>* \<Longrightarrow> distinct vs"
proof (induction n arbitrary: i vs)
  case 0
  then show ?case by simp
next
  case (Suc n)
  from visits_Suc_Inr [OF Suc.prems(1)] obtain kids ws where
    kids: "ch i = Inr kids" and c: "collect (visits n ch) kids = Inr ws" and vs: "vs = ws @ [i]"
    by blast
  have e: "(i, k) \<in> child_rel ch" if "k \<in> set kids" for k
    using that kids by (auto simp: child_rel_def)
  have rk: "(r, k) \<in> (child_rel ch)\<^sup>*" if "k \<in> set kids" for k
    using Suc.prems(2) e [OF that] by (rule rtrancl_into_rtrancl)
  note ac = tree_acyclic [OF sp Suc.prems(2)]
  have below: "(k, x) \<in> (child_rel ch)\<^sup>*" if "visits n ch k = Inr us" "x \<in> set us" for k us x
    using visits_facts [OF that(1)] that(2) by blast
  have "distinct ws"
  proof (rule collect_distinct [OF _ _ c dk [OF kids]])
    show "distinct us" if "k \<in> set kids" "visits n ch k = Inr us" for k us
      using Suc.IH [OF that(2) rk [OF that(1)]] .
    show "set us \<inter> set us' = {}"
      if k: "k \<in> set kids" and k': "k' \<in> set kids" and ne: "k \<noteq> k'"
        and u: "visits n ch k = Inr us" and u': "visits n ch k' = Inr us'" for k k' us us'
    proof (rule ccontr)
      assume "set us \<inter> set us' \<noteq> {}"
      then obtain x where "x \<in> set us" and "x \<in> set us'" by blast
      with below [OF u] below [OF u'] have "(k, x) \<in> (child_rel ch)\<^sup>*" "(k', x) \<in> (child_rel ch)\<^sup>*"
        by blast+
      from tree_comparable [OF sp this] have "(k, k') \<in> (child_rel ch)\<^sup>+ \<or> (k', k) \<in> (child_rel ch)\<^sup>+"
        using ne by (auto simp: rtrancl_eq_or_trancl)
      then have "\<exists>a b. a \<in> set kids \<and> b \<in> set kids \<and> (a, b) \<in> (child_rel ch)\<^sup>+"
        using k k' by blast
      then obtain a b where a: "a \<in> set kids" and b: "b \<in> set kids"
        and ab: "(a, b) \<in> (child_rel ch)\<^sup>+" by blast
      from ab obtain w where aw: "(a, w) \<in> (child_rel ch)\<^sup>*" and wb: "(w, b) \<in> child_rel ch"
        by (auto dest: tranclD2)
      from single_parent_unique [OF sp wb e [OF b]] have "w = i" .
      with aw e [OF a] have "(i, i) \<in> (child_rel ch)\<^sup>+" by auto
      with ac show False by blast
    qed
  qed
  moreover have "i \<notin> set ws"
  proof
    assume "i \<in> set ws"
    from collect_set [OF c this] obtain k us where
      k: "k \<in> set kids" and u: "visits n ch k = Inr us" and iu: "i \<in> set us" by blast
    from below [OF u iu] e [OF k] have "(i, i) \<in> (child_rel ch)\<^sup>+" by auto
    with ac show False by blast
  qed
  ultimately show ?case using vs by simp
qed

text \<open>With \<open>K\<close> a finite set that holds every identifier with visible children, a
  stack of depth \<open>card K + 1\<close> is enough for the traversal of a tree: an identifier
  and its proper ancestors are all different.\<close>

lemma visits_returns_tree:
  assumes sp: "single_parent ch r"
    and df: "\<And>i. (r, i) \<in> (child_rel ch)\<^sup>* \<Longrightarrow> \<exists>kids. ch i = Inr kids"
    and fin: "finite K" and K: "\<And>p kids. ch p = Inr kids \<Longrightarrow> kids \<noteq> [] \<Longrightarrow> p \<in> K"
  shows "(r, i) \<in> (child_rel ch)\<^sup>* \<Longrightarrow> card (K - {a. (a, i) \<in> (child_rel ch)\<^sup>+}) \<le> n \<Longrightarrow>
     \<exists>vs. visits (Suc n) ch i = Inr vs"
proof (induction n arbitrary: i)
  case 0
  from df [OF "0.prems"(1)] obtain kids where kids: "ch i = Inr kids" ..
  have "kids = []"
  proof (rule ccontr)
    assume "kids \<noteq> []"
    from K [OF kids this] tree_acyclic [OF sp "0.prems"(1)]
    have "i \<in> K - {a. (a, i) \<in> (child_rel ch)\<^sup>+}" by simp
    with "0.prems"(2) fin show False by auto
  qed
  with kids show ?case by simp
next
  case (Suc n)
  from df [OF Suc.prems(1)] obtain kids where kids: "ch i = Inr kids" ..
  show ?case
  proof (cases "kids = []")
    case True
    with kids show ?thesis by simp
  next
    case False
    note iK = K [OF kids False]
    note ac = tree_acyclic [OF sp Suc.prems(1)]
    have "\<exists>r. collect (visits (Suc n) ch) kids = Inr r"
    proof (rule collect_all_defined)
      fix k assume k: "k \<in> set kids"
      then have e: "(i, k) \<in> child_rel ch" using kids by (auto simp: child_rel_def)
      with Suc.prems(1) have rk: "(r, k) \<in> (child_rel ch)\<^sup>*" by (rule rtrancl_into_rtrancl)
      have sub: "K - {a. (a, k) \<in> (child_rel ch)\<^sup>+} \<subseteq> (K - {a. (a, i) \<in> (child_rel ch)\<^sup>+}) - {i}"
        using e by (auto intro: trancl_into_trancl)
      have "i \<in> K - {a. (a, i) \<in> (child_rel ch)\<^sup>+}" using iK ac by simp
      then have "card ((K - {a. (a, i) \<in> (child_rel ch)\<^sup>+}) - {i}) < card (K - {a. (a, i) \<in> (child_rel ch)\<^sup>+})"
        using fin by (intro card_Diff1_less) auto
      moreover have "card (K - {a. (a, k) \<in> (child_rel ch)\<^sup>+}) \<le> card ((K - {a. (a, i) \<in> (child_rel ch)\<^sup>+}) - {i})"
        using fin by (intro card_mono [OF _ sub]) auto
      ultimately have "card (K - {a. (a, k) \<in> (child_rel ch)\<^sup>+}) \<le> n"
        using Suc.prems(2) by simp
      from Suc.IH [OF rk this] show "\<exists>vs. visits (Suc n) ch k = Inr vs" .
    qed
    with kids show ?thesis by (subst visits.simps) auto
  qed
qed

lemma lookup_Own_mem: "lookup ns i = Own n \<Longrightarrow> (i, n) \<in> set ns"
  by (auto simp: lookup_def split: option.splits if_splits dest: map_of_SomeD)

lemma children_of_Inr_cases:
  assumes "children_of c m p = Inr kids" and "kids \<noteq> []"
  shows "p \<notin> c \<and> (\<exists>n. lookup (nodes m) p = Own n \<and> kids = children n)"
  using assms
  by (auto simp: children_of_def visibleChildren_def split: if_splits property.splits)

lemma children_of_keys:
  assumes "children_of c m p = Inr kids" and "kids \<noteq> []"
  shows "p \<in> set (map fst (nodes m))"
proof -
  from children_of_Inr_cases [OF assms] obtain n where "lookup (nodes m) p = Own n" by blast
  from lookup_Own_mem [OF this] show ?thesis by force
qed

lemma truthy_children_of: "truthy (lookup (nodes m) i) \<Longrightarrow> \<exists>kids. children_of c m i = Inr kids"
  by (auto simp: children_of_def visibleChildren_def truthy_def split: property.splits)

lemma linked_reachable:
  assumes l: "linked m"
  shows "(root_id m, i) \<in> (child_rel (children_of c m))\<^sup>* \<Longrightarrow> truthy (lookup (nodes m) i)"
proof (induction rule: rtrancl_induct)
  case base
  from l show ?case by (simp add: linked_def)
next
  case (step y z)
  from step.hyps(2) obtain kids where k: "children_of c m y = Inr kids" and z: "z \<in> set kids"
    by (auto simp: child_rel_def)
  from z have "kids \<noteq> []" by auto
  from children_of_Inr_cases [OF k this] obtain n where
    n: "lookup (nodes m) y = Own n" and kn: "kids = children n" by blast
  from lookup_Own_mem [OF n] l z kn show ?case
    unfolding linked_def by blast
qed

lemma single_parent_collapsed:
  assumes "single_parent (children_of {} m) r"
  shows "single_parent (children_of c m) r"
  using assms unfolding single_parent_def
  by (simp add: child_rel_collapsed [of _ _ c]) blast

text \<open>A model whose root and children are all found in the node table, where no
  identifier is the child of two nodes or twice the child of one, and the root is the
  child of none, is laid out whenever the stack is deeper than the number of nodes,
  and the traversal visits no identifier twice.\<close>

lemma tree_model_layout:
  assumes l: "linked m" and sp: "single_parent (children_of {} m) (root_id m)"
    and dk: "\<And>p kids. children_of {} m p = Inr kids \<Longrightarrow> distinct kids"
    and st: "length (nodes m) < stack"
  shows "\<exists>l vs. layoutTree stack c m = Inr l \<and>
     visits stack (children_of c m) (root_id m) = Inr vs \<and> distinct vs"
proof -
  let ?ch = "children_of c m" and ?K = "set (map fst (nodes m))"
  note spc = single_parent_collapsed [OF sp, of c]
  have dkc: "distinct kids" if "?ch p = Inr kids" for p kids
  proof (cases "p \<in> c")
    case True
    with that show ?thesis by (simp add: children_of_collapsed [of c])
  next
    case False
    with that have "children_of {} m p = Inr kids" by (simp add: children_of_collapsed [of c])
    then show ?thesis by (rule dk)
  qed
  have df: "\<exists>kids. ?ch i = Inr kids" if "(root_id m, i) \<in> (child_rel ?ch)\<^sup>*" for i
    using truthy_children_of [OF linked_reachable [OF l that]] .
  have "card (?K - {a. (a, root_id m) \<in> (child_rel ?ch)\<^sup>+}) \<le> card ?K"
    by (intro card_mono) auto
  also have "\<dots> \<le> length (nodes m)"
    using card_length [of "map fst (nodes m)"] by simp
  finally have "card (?K - {a. (a, root_id m) \<in> (child_rel ?ch)\<^sup>+}) \<le> length (nodes m)" .
  moreover have Kf: "p \<in> ?K" if "?ch p = Inr kids" "kids \<noteq> []" for p kids
    using children_of_keys [OF that] .
  moreover have "finite ?K" by simp
  ultimately have "\<exists>vs. visits (Suc (length (nodes m))) ?ch (root_id m) = Inr vs"
    using spc df by (intro visits_returns_tree [where K = ?K and r = "root_id m"]) blast+
  then obtain vs where "visits (Suc (length (nodes m))) ?ch (root_id m) = Inr vs" ..
  from visits_mono [OF this] st have v: "visits stack ?ch (root_id m) = Inr vs" by simp
  from visits_distinct_tree [OF spc dkc v] have "distinct vs" by simp
  with visits_layoutTree [OF v] v show ?thesis by blast
qed

section \<open>The models that parse returns\<close>

lemma scan_line_no_children:
  assumes "scan_line n raw (ns, es) = Inr (ns', es')"
    and "\<forall>(k, nd) \<in> set ns. children nd = []"
  shows "\<forall>(k, nd) \<in> set ns'. children nd = []"
  using assms
  by (auto simp: scan_line_def Let_def split: if_splits option.splits prod.splits)

lemma scan_lines_no_children:
  "scan_lines n ls (ns, es) = Inr (ns', es') \<Longrightarrow> \<forall>(k, nd) \<in> set ns. children nd = [] \<Longrightarrow>
   \<forall>(k, nd) \<in> set ns'. children nd = []"
proof (induction ls arbitrary: n ns es)
  case Nil
  then show ?case by simp
next
  case (Cons raw rest)
  from Cons.prems(1) obtain ns1 es1 where
    1: "scan_line (n + 1) raw (ns, es) = Inr (ns1, es1)" and
    2: "scan_lines (n + 1) rest (ns1, es1) = Inr (ns', es')"
    by (auto split: sum.splits)
  from Cons.IH [OF 2 scan_line_no_children [OF 1 Cons.prems(2)]] show ?case .
qed

lemma children_found_push_child:
  assumes "children_found ns" and "truthy (lookup ns t)"
  shows "children_found (push_child ns f t)"
  unfolding children_found_def
proof (intro ballI, clarify)
  fix k nd c
  assume m: "(k, nd) \<in> set (push_child ns f t)" and c: "c \<in> set (children nd)"
  from m obtain nd0 where m0: "(k, nd0) \<in> set ns"
    and nd: "nd = (if k = f then nd0\<lparr>children := children nd0 @ [t]\<rparr> else nd0)"
    by (auto simp: push_child_def split: if_splits)
  from c nd have "c \<in> set (children nd0) \<or> c = t" by (auto split: if_splits)
  with assms m0 have "truthy (lookup ns c)" unfolding children_found_def by blast
  then show "truthy (lookup (push_child ns f t) c)" by (simp add: truthy_push_child)
qed

lemma link_edges_children_found:
  "link_edges es ns = Ok ns' \<Longrightarrow> children_found ns \<Longrightarrow>
   children_found ns' \<and> map fst ns' = map fst ns"
proof (induction es arbitrary: ns)
  case Nil
  then show ?case by simp
next
  case (Cons e es)
  from Cons.prems(1) have t: "truthy (lookup ns (to_id e))"
    and r: "link_edges es (push_child ns (from_id e) (to_id e)) = Ok ns'"
    by (auto split: if_splits property.splits)
  from Cons.IH [OF r children_found_push_child [OF Cons.prems(2) t]]
  show ?case by (simp add: keys_push_child)
qed

lemma object_keys_set: "set (object_keys obj) = set (map fst obj)"
  by (auto simp: object_keys_def Let_def)

lemma choose_root_key:
  assumes "choose_root ns es = Some r"
  shows "r \<in> set (map fst ns)"
proof -
  from assms have "r \<in> set (object_keys ns)"
    by (auto simp: choose_root_def js_or_def Let_def find_Some_iff
        split: option.splits if_splits list.splits)
  then show ?thesis by (simp only: object_keys_set)
qed

lemma key_truthy: "k \<in> set (map fst ns) \<Longrightarrow> truthy (lookup ns k)"
proof -
  assume "k \<in> set (map fst ns)"
  then have "map_of ns k \<noteq> None" by (simp add: map_of_eq_None_iff)
  then show ?thesis by (auto simp: lookup_def truthy_def)
qed

lemma parse_linked:
  assumes "parse text = Ok m"
  shows "linked m"
proof -
  from assms obtain ns es ns' where
    s: "scan_lines 0 (split_lines text) ([], []) = Inr (ns, es)" and
    l: "link_edges es ns = Ok ns'" and
    r: "choose_root ns' es = Some (root_id m)" and
    m: "nodes m = ns'"
    by (auto simp: parse_def split: sum.splits prod.splits outcome.splits option.splits if_splits)
  from scan_lines_no_children [OF s] have "\<forall>(k, nd) \<in> set ns. children nd = []" by simp
  then have "children_found ns" by (auto simp: children_found_def)
  from link_edges_children_found [OF l this] have c: "children_found ns'" by simp
  from key_truthy [OF choose_root_key [OF r]] c m show ?thesis
    by (simp add: linked_def children_found_def)
qed

lemma parsed_tree_layout:
  assumes "parse text = Ok m" and "single_parent (children_of {} m) (root_id m)"
    and "\<And>p kids. children_of {} m p = Inr kids \<Longrightarrow> distinct kids"
    and "length (nodes m) < stack"
  shows "\<exists>l vs. layoutTree stack c m = Inr l \<and>
     visits stack (children_of c m) (root_id m) = Inr vs \<and> distinct vs"
  using tree_model_layout [OF parse_linked [OF assms(1)] assms(2,3,4)] .

section \<open>The guarded traversal returns\<close>

text \<open>The guarded traversal returns on every model, tree or not, when the stack is
  deeper than the number of identifiers that have children.\<close>

lemma forEach_returns:
  assumes step: "\<And>k a. k \<in> set kids \<Longrightarrow> P a \<Longrightarrow> \<exists>b. f k a = Inr b \<and> P b"
  shows "P s \<Longrightarrow> \<exists>s'. forEach f kids s = Inr s' \<and> P s'"
  using step
proof (induction kids arbitrary: s)
  case Nil
  then show ?case by simp
next
  case (Cons k ks)
  from Cons.prems(2) [of k s] Cons.prems(1) obtain a where a: "f k s = Inr a" and pa: "P a"
    by auto
  from Cons.IH [OF pa] Cons.prems(2) obtain s' where "forEach f ks a = Inr s'" and "P s'"
    by auto
  with a show ?case by simp
qed

lemma depthFirstSearch_returns:
  assumes fin: "finite K" and K: "\<And>p kids. ch p = Inr kids \<Longrightarrow> kids \<noteq> [] \<Longrightarrow> p \<in> K"
    and A: "\<And>i. i \<in> A \<Longrightarrow> \<exists>kids. ch i = Inr kids \<and> set kids \<subseteq> A"
  shows "i \<in> A \<Longrightarrow> card (K - set v) \<le> n \<Longrightarrow> \<exists>v'. depthFirstSearch (Suc n) ch i v = Inr v'"
proof (induction n arbitrary: i v)
  case 0
  show ?case
  proof (cases "i \<in> set v")
    case True
    then show ?thesis by simp
  next
    case False
    from A [OF "0.prems"(1)] obtain kids where kids: "ch i = Inr kids" by blast
    have "kids = []"
    proof (rule ccontr)
      assume "kids \<noteq> []"
      from K [OF kids this] False have "i \<in> K - set v" by simp
      with "0.prems"(2) fin show False by auto
    qed
    with kids False show ?thesis by simp
  qed
next
  case (Suc n)
  show ?case
  proof (cases "i \<in> set v")
    case True
    then show ?thesis by simp
  next
    case False
    from A [OF Suc.prems(1)] obtain kids where kids: "ch i = Inr kids" and sub: "set kids \<subseteq> A"
      by blast
    show ?thesis
    proof (cases "kids = []")
      case True
      with kids False show ?thesis by simp
    next
      case ne: False
      from K [OF kids ne] False have iK: "i \<in> K - set v" by simp
      have less: "card (K - set w) \<le> n" if "set (v @ [i]) \<subseteq> set w" for w
      proof -
        from that have "K - set w \<subseteq> (K - set v) - {i}" by auto
        then have "card (K - set w) \<le> card ((K - set v) - {i})"
          using fin by (intro card_mono) auto
        also have "\<dots> < card (K - set v)"
          using fin iK by (intro card_Diff1_less) auto
        finally show ?thesis using Suc.prems(2) by simp
      qed
      have "\<exists>v'. forEach (depthFirstSearch (Suc n) ch) kids (v @ [i]) = Inr v' \<and>
          set (v @ [i]) \<subseteq> set v'"
      proof (rule forEach_returns [where P = "\<lambda>w. set (v @ [i]) \<subseteq> set w"])
        fix k a assume k: "k \<in> set kids" and a: "set (v @ [i]) \<subseteq> set a"
        from k sub have "k \<in> A" by blast
        from Suc.IH [OF this less [OF a]] obtain b where
          b: "depthFirstSearch (Suc n) ch k a = Inr b" ..
        from dfs_step_mono [OF depthFirstSearch_step [OF b]] a
        have "set (v @ [i]) \<subseteq> set b" by blast
        with b show "\<exists>b. depthFirstSearch (Suc n) ch k a = Inr b \<and> set (v @ [i]) \<subseteq> set b"
          by blast
      qed simp
      with kids False show ?thesis by (subst depthFirstSearch.simps) auto
    qed
  qed
qed

lemma linked_closed:
  assumes "linked m" and that: "i \<in> {i. truthy (lookup (nodes m) i)}"
  shows "\<exists>kids. children_of c m i = Inr kids \<and>
           set kids \<subseteq> {i. truthy (lookup (nodes m) i)}"
proof -
  from that truthy_children_of obtain kids where k: "children_of c m i = Inr kids" by blast
  have "set kids \<subseteq> {i. truthy (lookup (nodes m) i)}"
  proof (cases "kids = []")
    case True
    then show ?thesis by simp
  next
    case False
    from children_of_Inr_cases [OF k False] obtain n where
      n: "lookup (nodes m) i = Own n" and kn: "kids = children n" by blast
    from lookup_Own_mem [OF n] assms kn show ?thesis
      unfolding linked_def by blast
  qed
  with k show ?thesis by blast
qed

lemma guarded_traversal_returns:
  assumes "linked m" and "length (nodes m) < stack"
  shows "\<exists>v. depthFirstSearch stack (children_of c m) (root_id m) [] = Inr v"
proof -
  let ?K = "set (map fst (nodes m))" and ?A = "{i. truthy (lookup (nodes m) i)}"
  have r: "root_id m \<in> ?A" using assms(1) by (simp add: linked_def)
  have "card (?K - set []) \<le> length (nodes m)"
    using card_length [of "map fst (nodes m)"] by simp
  moreover have "finite ?K" by simp
  moreover have "p \<in> ?K" if "children_of c m p = Inr kids" "kids \<noteq> []" for p kids
    using children_of_keys [OF that] .
  ultimately have "\<exists>v'. depthFirstSearch (Suc (length (nodes m))) (children_of c m) (root_id m) [] = Inr v'"
    using linked_closed [OF assms(1)] r
    by (intro depthFirstSearch_returns [where K = ?K and A = ?A]) blast+
  then obtain v where "depthFirstSearch (Suc (length (nodes m))) (children_of c m) (root_id m) [] = Inr v" ..
  from depthFirstSearch_mono [OF this] assms(2) show ?thesis by auto
qed

section \<open>The program on a store computes the functions\<close>

lemma assign_new: "map_of ps k = None \<Longrightarrow> assign k v ps = ps @ [(k, v)]"
  by (induction ps) (auto split: if_splits)

lemma falsy_not_own: "\<not> truthy (lookup ns k) \<Longrightarrow> map_of ns k = None"
  by (auto simp: lookup_def truthy_def split: option.splits)

lemma store_with_same:
  "store_with a b (objects \<sigma> ! a, arrays \<sigma> ! b) \<sigma> = \<sigma>"
  by (simp add: store_with_def)

lemma store_with_twice:
  "store_with a b st' (store_with a b st \<sigma>) = store_with a b st' \<sigma>"
  by (simp add: store_with_def)

lemma store_with_read:
  "a < length (objects \<sigma>) \<Longrightarrow> b < length (arrays \<sigma>) \<Longrightarrow>
     objects (store_with a b st \<sigma>) ! a = fst st \<and> arrays (store_with a b st \<sigma>) ! b = snd st \<and>
     length (objects (store_with a b st \<sigma>)) = length (objects \<sigma>) \<and>
     length (arrays (store_with a b st \<sigma>)) = length (arrays \<sigma>)"
  by (simp add: store_with_def)

lemma scan_line_store_eq:
  "scan_line_store a b n raw \<sigma> =
     (case scan_line n raw (objects \<sigma> ! a, arrays \<sigma> ! b) of
        Inl e \<Rightarrow> (Some e, \<sigma>)
      | Inr st \<Rightarrow> (None, store_with a b st \<sigma>))"
  by (auto simp: scan_line_store_def scan_line_def Let_def store_with_def get_property_def
      set_property_def array_push_def assign_new falsy_not_own split: option.splits)

lemma scan_lines_store_eq:
  assumes "a < length (objects \<sigma>)" and "b < length (arrays \<sigma>)"
  shows "\<exists>st. scan_lines_store a b n ls \<sigma> =
           (case scan_lines n ls (objects \<sigma> ! a, arrays \<sigma> ! b) of
              Inl e \<Rightarrow> Some e | Inr _ \<Rightarrow> None, store_with a b st \<sigma>) \<and>
         (\<forall>st'. scan_lines n ls (objects \<sigma> ! a, arrays \<sigma> ! b) = Inr st' \<longrightarrow> st = st')"
  using assms
proof (induction ls arbitrary: n \<sigma>)
  case Nil
  show ?case
    by (intro exI [of _ "(objects \<sigma> ! a, arrays \<sigma> ! b)"]) (simp add: store_with_same)
next
  case (Cons raw rest)
  let ?st = "(objects \<sigma> ! a, arrays \<sigma> ! b)"
  show ?case
  proof (cases "scan_line (n + 1) raw ?st")
    case (Inl e)
    then show ?thesis
      by (intro exI [of _ ?st]) (simp add: scan_line_store_eq store_with_same)
  next
    case (Inr st1)
    let ?\<sigma> = "store_with a b st1 \<sigma>"
    from store_with_read [OF Cons.prems, of st1] Cons.prems
    have r: "(objects ?\<sigma> ! a, arrays ?\<sigma> ! b) = st1" and
      l: "a < length (objects ?\<sigma>)" "b < length (arrays ?\<sigma>)"
      by simp_all
    from Cons.IH [OF l, of "n + 1"] obtain st where
      1: "scan_lines_store a b (n + 1) rest ?\<sigma> =
           (case scan_lines (n + 1) rest st1 of Inl e \<Rightarrow> Some e | Inr _ \<Rightarrow> None,
            store_with a b st ?\<sigma>)" and
      2: "\<forall>st'. scan_lines (n + 1) rest st1 = Inr st' \<longrightarrow> st = st'"
      unfolding r by blast
    from 1 2 Inr show ?thesis
      by (intro exI [of _ st]) (simp add: scan_line_store_eq store_with_twice)
  qed
qed

lemma link_edges_store_eq:
  assumes "a < length (objects \<sigma>)"
  shows "\<exists>ns. link_edges_store a es \<sigma> =
           (case link_edges es (objects \<sigma> ! a) of
              Ok _ \<Rightarrow> Ok () | Error e \<Rightarrow> Error e | Throws x \<Rightarrow> Throws x,
            \<sigma>\<lparr>objects := (objects \<sigma>)[a := ns]\<rparr>) \<and>
         (\<forall>ns'. link_edges es (objects \<sigma> ! a) = Ok ns' \<longrightarrow> ns = ns')"
  using assms
proof (induction es arbitrary: \<sigma>)
  case Nil
  show ?case
    by (intro exI [of _ "objects \<sigma> ! a"]) simp
next
  case (Cons e es)
  let ?ns = "objects \<sigma> ! a"
  show ?case
  proof (cases "truthy (lookup ?ns (to_id e)) \<and> (\<exists>n. lookup ?ns (from_id e) = Own n)")
    case False
    then show ?thesis
      by (intro exI [of _ ?ns])
        (auto simp: get_property_def truthy_def split: property.splits)
  next
    case True
    let ?\<sigma> = "children_push a (from_id e) (to_id e) \<sigma>"
    from Cons.prems have r: "objects ?\<sigma> ! a = push_child ?ns (from_id e) (to_id e)"
      and l: "a < length (objects ?\<sigma>)"
      by (simp_all add: children_push_def)
    from Cons.IH [OF l] obtain ns where
      1: "link_edges_store a es ?\<sigma> =
           (case link_edges es (push_child ?ns (from_id e) (to_id e)) of
              Ok _ \<Rightarrow> Ok () | Error e \<Rightarrow> Error e | Throws x \<Rightarrow> Throws x,
            ?\<sigma>\<lparr>objects := (objects ?\<sigma>)[a := ns]\<rparr>)" and
      2: "\<forall>ns'. link_edges es (push_child ?ns (from_id e) (to_id e)) = Ok ns' \<longrightarrow> ns = ns'"
      unfolding r by blast
    have 3: "?\<sigma>\<lparr>objects := (objects ?\<sigma>)[a := ns]\<rparr> = \<sigma>\<lparr>objects := (objects \<sigma>)[a := ns]\<rparr>"
      by (simp add: children_push_def)
    from True 1 2 show ?thesis
      unfolding 3
      by (intro exI [of _ ns])
        (auto simp: get_property_def truthy_def split: property.splits)
  qed
qed

lemma layoutTree_store_eq:
  "layoutTree_store stack m \<sigma> = layoutTree stack (collapsed_set \<sigma>) (model_at \<sigma> m)"
proof -
  have "(\<lambda>i. visibleChildren_store i (nodes_ref m) \<sigma>) =
      children_of (collapsed_set \<sigma>) (model_at \<sigma> m)"
    by (rule ext)
      (simp add: visibleChildren_store_def children_of_def visibleChildren_def get_property_def
        model_at_def)
  moreover have "root_id (model_at \<sigma> m) = root_ref m"
    by (simp add: model_at_def)
  ultimately show ?thesis
    by (simp add: layoutTree_store_def layoutTree_def Let_def split: sum.splits)
qed

lemma extends_store_with:
  "extends \<sigma> (store_with (length (objects \<sigma>)) (length (arrays \<sigma>)) st
      (\<sigma>\<lparr>objects := objects \<sigma> @ [[]], arrays := arrays \<sigma> @ [[]]\<rparr>))"
  by (simp add: extends_def store_with_def)

lemma extends_relinked:
  "extends \<sigma> \<sigma>' \<Longrightarrow> extends \<sigma> (\<sigma>'\<lparr>objects := (objects \<sigma>')[length (objects \<sigma>) := ns]\<rparr>)"
  by (simp add: extends_def)

lemma parse_store_spec:
  assumes "parse_store t \<sigma> = (r, \<sigma>')"
  shows "result_at \<sigma>' r = parse t \<and> extends \<sigma> \<sigma>' \<and>
         (\<forall>m. r = Ok m \<longrightarrow> nodes_ref m = length (objects \<sigma>) \<and> edges_ref m = length (arrays \<sigma>))"
proof -
  let ?a = "length (objects \<sigma>)" and ?b = "length (arrays \<sigma>)"
  let ?\<sigma>2 = "\<sigma>\<lparr>objects := objects \<sigma> @ [[]], arrays := arrays \<sigma> @ [[]]\<rparr>"
  have a: "?a < length (objects ?\<sigma>2)" and b: "?b < length (arrays ?\<sigma>2)" by simp_all
  have e: "objects ?\<sigma>2 ! ?a = []" "arrays ?\<sigma>2 ! ?b = []" by simp_all
  from scan_lines_store_eq [OF a b, of 0 "split_lines t"] obtain st where
    1: "scan_lines_store ?a ?b 0 (split_lines t) ?\<sigma>2 =
          (case scan_lines 0 (split_lines t) ([], []) of Inl e \<Rightarrow> Some e | Inr _ \<Rightarrow> None,
           store_with ?a ?b st ?\<sigma>2)" and
    2: "\<forall>st'. scan_lines 0 (split_lines t) ([], []) = Inr st' \<longrightarrow> st = st'"
    unfolding e by blast
  let ?\<sigma>3 = "store_with ?a ?b st ?\<sigma>2"
  have x3: "extends \<sigma> ?\<sigma>3" by (rule extends_store_with)
  have p: "parse_store t \<sigma> =
      (case scan_lines_store ?a ?b 0 (split_lines t) ?\<sigma>2 of
        (Some e, \<sigma>3) \<Rightarrow> (Error e, \<sigma>3)
      | (None, \<sigma>3) \<Rightarrow>
          (case link_edges_store ?a (arrays \<sigma>3 ! ?b) \<sigma>3 of
             (Error e, \<sigma>4) \<Rightarrow> (Error e, \<sigma>4)
           | (Throws x, \<sigma>4) \<Rightarrow> (Throws x, \<sigma>4)
           | (Ok _, \<sigma>4) \<Rightarrow>
               (case choose_root (objects \<sigma>4 ! ?a) (arrays \<sigma>4 ! ?b) of
                  None \<Rightarrow> (Error NoNodesDefined, \<sigma>4)
                | Some r \<Rightarrow>
                    if r = [] then (Error NoNodesDefined, \<sigma>4)
                    else (Ok \<lparr>nodes_ref = ?a, edges_ref = ?b, root_ref = r\<rparr>, \<sigma>4))))"
    by (simp add: parse_store_def new_object_def new_array_def
        split: prod.splits option.splits outcome.splits)
  show ?thesis
  proof (cases "scan_lines 0 (split_lines t) ([], [])")
    case (Inl err)
    with 1 p assms have "r = Error err" "\<sigma>' = ?\<sigma>3" by simp_all
    with Inl x3 show ?thesis by (simp add: result_at_def parse_def)
  next
    case (Inr st')
    with 2 have st: "st = st'" by blast
    obtain ns es where st': "st' = (ns, es)" by (cases st')
    from store_with_read [OF a b, of st] st st'
    have r3: "objects ?\<sigma>3 ! ?a = ns" "arrays ?\<sigma>3 ! ?b = es" and
      l3: "?a < length (objects ?\<sigma>3)" "?b < length (arrays ?\<sigma>3)"
      by simp_all
    from link_edges_store_eq [OF l3(1), of es] obtain ns2 where
      3: "link_edges_store ?a es ?\<sigma>3 =
           (case link_edges es ns of
              Ok _ \<Rightarrow> Ok () | Error e \<Rightarrow> Error e | Throws x \<Rightarrow> Throws x,
            ?\<sigma>3\<lparr>objects := (objects ?\<sigma>3)[?a := ns2]\<rparr>)" and
      4: "\<forall>ns'. link_edges es ns = Ok ns' \<longrightarrow> ns2 = ns'"
      unfolding r3 by blast
    let ?\<sigma>4 = "?\<sigma>3\<lparr>objects := (objects ?\<sigma>3)[?a := ns2]\<rparr>"
    have x4: "extends \<sigma> ?\<sigma>4" by (rule extends_relinked [OF x3])
    from l3 r3 have r4: "objects ?\<sigma>4 ! ?a = ns2" "arrays ?\<sigma>4 ! ?b = es" by simp_all
    from 1 Inr have s3: "scan_lines_store ?a ?b 0 (split_lines t) ?\<sigma>2 = (None, ?\<sigma>3)" by simp
    have q: "parse_store t \<sigma> =
        (case link_edges_store ?a es ?\<sigma>3 of
             (Error e, \<sigma>4) \<Rightarrow> (Error e, \<sigma>4)
           | (Throws x, \<sigma>4) \<Rightarrow> (Throws x, \<sigma>4)
           | (Ok _, \<sigma>4) \<Rightarrow>
               (case choose_root (objects \<sigma>4 ! ?a) (arrays \<sigma>4 ! ?b) of
                  None \<Rightarrow> (Error NoNodesDefined, \<sigma>4)
                | Some r \<Rightarrow>
                    if r = [] then (Error NoNodesDefined, \<sigma>4)
                    else (Ok \<lparr>nodes_ref = ?a, edges_ref = ?b, root_ref = r\<rparr>, \<sigma>4)))"
      unfolding p s3 using r3 by simp
    show ?thesis
    proof (cases "link_edges es ns")
      case (Ok ns')
      with 4 have n: "ns2 = ns'" by blast
      from Ok 3 have l: "link_edges_store ?a es ?\<sigma>3 = (Ok (), ?\<sigma>4)" by simp
      have "(r, \<sigma>') =
          (case choose_root ns2 es of
             None \<Rightarrow> (Error NoNodesDefined, ?\<sigma>4)
           | Some r \<Rightarrow>
               if r = [] then (Error NoNodesDefined, ?\<sigma>4)
               else (Ok \<lparr>nodes_ref = ?a, edges_ref = ?b, root_ref = r\<rparr>, ?\<sigma>4))"
        using assms unfolding q l using r4 by simp
      then have s': "\<sigma>' = ?\<sigma>4" and
        r: "r = (case choose_root ns2 es of
             None \<Rightarrow> Error NoNodesDefined
           | Some r \<Rightarrow>
               if r = [] then Error NoNodesDefined
               else Ok \<lparr>nodes_ref = ?a, edges_ref = ?b, root_ref = r\<rparr>)"
        by (auto split: option.splits if_splits)
      have "parse t = (case choose_root ns2 es of
             None \<Rightarrow> Error NoNodesDefined
           | Some r \<Rightarrow>
               if r = [] then Error NoNodesDefined
               else Ok \<lparr>nodes = ns2, edges = es, root_id = r\<rparr>)"
        using Inr st' Ok n by (simp add: parse_def split: option.splits)
      with r s' r4 x4 show ?thesis
        by (auto simp: result_at_def model_at_def split: option.splits)
    next
      case (Error err)
      with 3 q assms have "r = Error err" "\<sigma>' = ?\<sigma>4" by simp_all
      with Inr st' Error x4 show ?thesis by (simp add: result_at_def parse_def)
    next
      case (Throws x)
      with 3 q assms have "r = Throws x" "\<sigma>' = ?\<sigma>4" by simp_all
      with Inr st' Throws x4 show ?thesis by (simp add: result_at_def parse_def)
    qed
  qed
qed

lemma snoc_last:
  assumes "length ys = Suc (length xs)" and "take (length xs) ys = xs"
  shows "ys = xs @ [ys ! length xs]"
proof -
  from assms(1) have "take (Suc (length xs)) ys = take (length xs) ys @ [ys ! length xs]"
    by (intro take_Suc_conv_app_nth) simp
  with assms show ?thesis by simp
qed

lemma extends_eq:
  assumes "extends \<sigma> \<sigma>'"
  shows "\<sigma>' = \<sigma>\<lparr>objects := objects \<sigma> @ [objects \<sigma>' ! length (objects \<sigma>)],
                   arrays := arrays \<sigma> @ [arrays \<sigma>' ! length (arrays \<sigma>)]\<rparr>"
proof -
  from assms have o: "objects \<sigma>' = objects \<sigma> @ [objects \<sigma>' ! length (objects \<sigma>)]"
    and a: "arrays \<sigma>' = arrays \<sigma> @ [arrays \<sigma>' ! length (arrays \<sigma>)]"
    by (auto simp: extends_def intro: snoc_last)
  from assms have "collapsed_set \<sigma>' = collapsed_set \<sigma>" "current_model \<sigma>' = current_model \<sigma>"
    by (simp_all add: extends_def)
  with o a show ?thesis
    by (intro store.equality) simp_all
qed

lemma parse_store_Ok:
  assumes "parse t = Ok m"
  shows "parse_store t \<sigma> =
           (Ok \<lparr>nodes_ref = length (objects \<sigma>), edges_ref = length (arrays \<sigma>),
                  root_ref = root_id m\<rparr>,
            \<sigma>\<lparr>objects := objects \<sigma> @ [nodes m], arrays := arrays \<sigma> @ [edges m]\<rparr>)"
proof -
  obtain r \<sigma>' where p: "parse_store t \<sigma> = (r, \<sigma>')" by (cases "parse_store t \<sigma>")
  from parse_store_spec [OF p] assms have
    1: "result_at \<sigma>' r = Ok m" and 2: "extends \<sigma> \<sigma>'" and
    3: "\<forall>k. r = Ok k \<longrightarrow> nodes_ref k = length (objects \<sigma>) \<and> edges_ref k = length (arrays \<sigma>)"
    by simp_all
  from 1 obtain k where r: "r = Ok k" and m: "model_at \<sigma>' k = m"
    by (auto simp: result_at_def split: outcome.splits)
  from 3 r have refs: "nodes_ref k = length (objects \<sigma>)" "edges_ref k = length (arrays \<sigma>)"
    by simp_all
  from m refs have 4: "objects \<sigma>' ! length (objects \<sigma>) = nodes m"
    "arrays \<sigma>' ! length (arrays \<sigma>) = edges m" "root_ref k = root_id m"
    by (auto simp: model_at_def)
  from refs 4(3) have "k = \<lparr>nodes_ref = length (objects \<sigma>), edges_ref = length (arrays \<sigma>),
                  root_ref = root_id m\<rparr>"
    by (intro model_ref.equality) simp_all
  with extends_eq [OF 2] 4 p r show ?thesis by simp
qed

lemma extends_model_at:
  assumes "extends \<sigma> \<sigma>'" and "nodes_ref k < length (objects \<sigma>)"
    and "edges_ref k < length (arrays \<sigma>)"
  shows "model_at \<sigma>' k = model_at \<sigma> k"
proof -
  from extends_eq [OF assms(1)] obtain x y where
    "\<sigma>' = \<sigma>\<lparr>objects := objects \<sigma> @ [x], arrays := arrays \<sigma> @ [y]\<rparr>" by blast
  with assms(2,3) show ?thesis by (simp add: model_at_def nth_append)
qed

section \<open>Evaluation on the examples\<close>

lemmas parse_eval =
  parse_def split_lines_def scan_line_def trim_def is_space_def startsWith_def match_node_def
  match_edge_def edge_tail_def non_space_def lookup_def truthy_def object_prototype_keys_def
  choose_root_def object_keys_def is_array_index_def is_digit_def index_val_def js_or_def
  push_child_def Let_def lines_text_def quote_def

lemmas children_eval = children_of_def visibleChildren_def lookup_def object_prototype_keys_def

lemmas layout_eval =
  layoutTree_def children_eval initial_pass_state_def coord_of_def NODE_W_def NODE_H_def
  X_GAP_def Y_GAP_def Let_def layout_view_def eval_nat_numeral

lemma parse_self_edge_text: "parse self_edge_text = Ok self_edge_model"
  by (simp add: self_edge_text_def self_edge_model_def parse_eval)

lemma firstPass_self_edge:
  "firstPass n (children_of {} self_edge_model) ''A'' d s = Inl RangeError"
proof (induction n arbitrary: d s)
  case 0
  show ?case by simp
next
  case (Suc n)
  have kids: "children_of {} self_edge_model ''A'' = Inr [''A'']"
    by (simp add: self_edge_model_def children_eval)
  show ?case
    by (simp add: kids Suc.IH)
qed

lemma self_edge_guarded:
  "depthFirstSearch 2 (children_of {} self_edge_model) (root_id self_edge_model) [] = Inr [''A'']"
  by (simp add: self_edge_model_def children_eval eval_nat_numeral)

lemma parse_shortcut_text: "parse shortcut_text = Ok shortcut_model"
  by (simp add: shortcut_text_def shortcut_model_def parse_eval)

lemma parse_tree_text: "parse tree_text = Ok tree_model"
  by (simp add: tree_text_def tree_model_def parse_eval)

lemma layout_view_Inr: "layout_view r = Inr v \<Longrightarrow> \<exists>l. r = Inr l \<and> v = (vis l, map (coords l) (vis l))"
  by (cases r) (auto simp: layout_view_def)

lemma tree_layout:
  "layout_view (layoutTree 3 {} tree_model) =
     Inr ([''R'', ''A'', ''C'', ''B''], [Some (83, 0), Some (0, 126), Some (0, 252), Some (166, 126)])"
  by (simp add: tree_model_def layout_eval)

lemma tree_collapsed_layout:
  "layout_view (layoutTree 3 {''A''} tree_model) =
     Inr ([''R'', ''A'', ''B''], [Some (83, 0), Some (0, 126), Some (166, 126)])"
  by (simp add: tree_model_def layout_eval)

lemma tree_visits:
  "visits 3 (children_of {} tree_model) (root_id tree_model) = Inr [''C'', ''A'', ''B'', ''R'']"
  by (simp add: tree_model_def children_of_def visibleChildren_def lookup_def eval_nat_numeral)

lemma tree_leaves:
  "filter (is_leaf (children_of {} tree_model)) [''C'', ''A'', ''B'', ''R''] = [''C'', ''B'']"
  by (simp add: tree_model_def is_leaf_def children_of_def visibleChildren_def lookup_def)

lemma parse_diamond_text: "parse diamond_text = Ok diamond_model"
  by (simp add: diamond_text_def diamond_model_def parse_eval)


lemma tree_child_rel:
  "child_rel (children_of {} tree_model) = {(''R'', ''A''), (''R'', ''B''), (''A'', ''C'')}"
  by (auto simp: child_rel_def tree_model_def children_eval split: if_splits)

section \<open>The claims\<close>

subsection \<open>C1: termination\<close>

text \<open>
  C1 (the code fails the claim).  The text \<open>node A "a"\<close>, \<open>edge A -> A\<close> parses to a
  model whose root is its own child.  On that model, with nothing collapsed,
  \<open>layoutTree\<close> returns no layout, whatever the depth of stack it is given: \<open>firstPass\<close>
  has no guard and descends until the stack is exhausted, before the guarded
  traversal is reached.  The guarded traversal alone returns on that model, with a
  stack of depth 2 (and on every model, by lemma \<open>guarded_traversal_returns\<close>); and
  \<open>layoutTree\<close> returns on the models without a node of two parents, by lemma
  \<open>tree_model_layout\<close>.
\<close>

theorem layoutTree_self_edge_never_returns:
  "parse self_edge_text = Ok self_edge_model \<and>
   (\<forall>stack. layoutTree stack {} self_edge_model = Inl RangeError) \<and>
   depthFirstSearch 2 (children_of {} self_edge_model) (root_id self_edge_model) [] =
     Inr [''A'']"
proof -
  have r: "root_id self_edge_model = ''A''"
    by (simp add: self_edge_model_def)
  have "\<forall>stack. layoutTree stack {} self_edge_model = Inl RangeError"
    by (simp add: layoutTree_def r firstPass_self_edge)
  with parse_self_edge_text self_edge_guarded show ?thesis
    by blast
qed

subsection \<open>C2: slots\<close>

text \<open>
  C2 (amended).  Every call of \<open>firstPass\<close> that returns has not lowered the counter;
  on a leaf it stores the counter as the slot and adds one to it; on an identifier with
  visible children it first runs over the children, all of which then have a slot, and
  stores the mean of the least and the greatest of these slots.  When the traversal
  visits no identifier twice, the slots in the final state are of that form: the leaves
  have 0, 1, 2, ... in the order of the traversal, and every other visible identifier
  has the mean of the least and the greatest slot of its visible children.
\<close>

theorem slots_assigned:
  "(firstPass (Suc n) ch i d s = Inr s' \<longrightarrow>
      xPositionNext s \<le> xPositionNext s' \<and>
      (ch i = Inr [] \<longrightarrow>
         xPosition s' i = Some (of_nat (xPositionNext s)) \<and> xPositionNext s' = xPositionNext s + 1) \<and>
      (\<forall>kids. ch i = Inr kids \<and> kids \<noteq> [] \<longrightarrow>
         (\<exists>s2. forEach (\<lambda>k. firstPass n ch k (d + 1)) kids (s\<lparr>depth := (depth s)(i \<mapsto> d)\<rparr>) = Inr s2 \<and>
               (\<forall>k \<in> set kids. xPosition s2 k \<noteq> None) \<and>
               xPosition s' i = Some (mean_of_kids s2 kids) \<and>
               xPositionNext s' = xPositionNext s2))) \<and>
   (layoutTree n c m = Inr l \<and> visits n (children_of c m) (root_id m) = Inr vs \<and> distinct vs \<longrightarrow>
      (\<exists>s. firstPass n (children_of c m) (root_id m) 0 initial_pass_state = Inr s \<and>
           (\<forall>j < length (filter (is_leaf (children_of c m)) vs).
              xPosition s (filter (is_leaf (children_of c m)) vs ! j) = Some (of_nat j)) \<and>
           (\<forall>p kids. p \<in> set (vis l) \<longrightarrow> children_of c m p = Inr kids \<longrightarrow> kids \<noteq> [] \<longrightarrow>
              set kids \<subseteq> set (vis l) \<and> xPosition s p = Some (mean_of_kids s kids))))"
proof (rule conjI)
  show "firstPass (Suc n) ch i d s = Inr s' \<longrightarrow>
      xPositionNext s \<le> xPositionNext s' \<and>
      (ch i = Inr [] \<longrightarrow>
         xPosition s' i = Some (of_nat (xPositionNext s)) \<and> xPositionNext s' = xPositionNext s + 1) \<and>
      (\<forall>kids. ch i = Inr kids \<and> kids \<noteq> [] \<longrightarrow>
         (\<exists>s2. forEach (\<lambda>k. firstPass n ch k (d + 1)) kids (s\<lparr>depth := (depth s)(i \<mapsto> d)\<rparr>) = Inr s2 \<and>
               (\<forall>k \<in> set kids. xPosition s2 k \<noteq> None) \<and>
               xPosition s' i = Some (mean_of_kids s2 kids) \<and>
               xPositionNext s' = xPositionNext s2))"
  proof
    assume a: "firstPass (Suc n) ch i d s = Inr s'"
    from firstPass_visits [OF a] obtain vs where "pass_rel ch s s' vs" by blast
    from pass_rel_next [OF this] have 1: "xPositionNext s \<le> xPositionNext s'" by simp
    have 2: "xPosition s' i = Some (of_nat (xPositionNext s)) \<and> xPositionNext s' = xPositionNext s + 1"
      if "ch i = Inr []"
      using a that by (cases rule: firstPass_Suc_Inr) simp_all
    have 3: "\<exists>s2. forEach (\<lambda>k. firstPass n ch k (d + 1)) kids (s\<lparr>depth := (depth s)(i \<mapsto> d)\<rparr>) = Inr s2 \<and>
               (\<forall>k \<in> set kids. xPosition s2 k \<noteq> None) \<and>
               xPosition s' i = Some (mean_of_kids s2 kids) \<and>
               xPositionNext s' = xPositionNext s2"
      if k: "ch i = Inr kids \<and> kids \<noteq> []" for kids
      using a
    proof (cases rule: firstPass_Suc_Inr)
      case leaf
      with k show ?thesis by auto
    next
      case (inner kids' s2)
      with k have kk: "kids' = kids" by simp
      let ?s1 = "s\<lparr>depth := (depth s)(i \<mapsto> d)\<rparr>"
      from forEach_collect [of kids' "\<lambda>k. firstPass n ch k (d + 1)" "visits n ch" ch, OF _ inner(3)]
        firstPass_visits
      obtain ws where c: "collect (visits n ch) kids' = Inr ws" and p: "pass_rel ch ?s1 s2 ws"
        by blast
      have "xPosition s2 q \<noteq> None" if "q \<in> set kids'" for q
        using pass_rel_inside [OF p] collect_visits_closed(2) [OF c] that by blast
      with inner(3,4) kk show ?thesis
        by (intro exI [of _ s2]) (simp add: mean_of_kids_def)
    qed
    from 1 2 3 show "xPositionNext s \<le> xPositionNext s' \<and>
      (ch i = Inr [] \<longrightarrow>
         xPosition s' i = Some (of_nat (xPositionNext s)) \<and> xPositionNext s' = xPositionNext s + 1) \<and>
      (\<forall>kids. ch i = Inr kids \<and> kids \<noteq> [] \<longrightarrow>
         (\<exists>s2. forEach (\<lambda>k. firstPass n ch k (d + 1)) kids (s\<lparr>depth := (depth s)(i \<mapsto> d)\<rparr>) = Inr s2 \<and>
               (\<forall>k \<in> set kids. xPosition s2 k \<noteq> None) \<and>
               xPosition s' i = Some (mean_of_kids s2 kids) \<and>
               xPositionNext s' = xPositionNext s2))"
      by blast
  qed
next
  let ?ch = "children_of c m"
  show "layoutTree n c m = Inr l \<and> visits n ?ch (root_id m) = Inr vs \<and> distinct vs \<longrightarrow>
      (\<exists>s. firstPass n ?ch (root_id m) 0 initial_pass_state = Inr s \<and>
           (\<forall>j < length (filter (is_leaf ?ch) vs).
              xPosition s (filter (is_leaf ?ch) vs ! j) = Some (of_nat j)) \<and>
           (\<forall>p kids. p \<in> set (vis l) \<longrightarrow> ?ch p = Inr kids \<longrightarrow> kids \<noteq> [] \<longrightarrow>
              set kids \<subseteq> set (vis l) \<and> xPosition s p = Some (mean_of_kids s kids)))"
  proof
  assume a: "layoutTree n c m = Inr l \<and> visits n ?ch (root_id m) = Inr vs \<and> distinct vs"
  then have l: "layoutTree n c m = Inr l" and v: "visits n ?ch (root_id m) = Inr vs"
    and d: "distinct vs" by simp_all
  from layoutTree_pass [OF l] v obtain s where
    s: "firstPass n ?ch (root_id m) 0 initial_pass_state = Inr s" and
    sv: "set (vis l) = set vs" by auto
  from firstPass_tree [OF v d s] have t: "tree_rel ?ch initial_pass_state s vs" by simp
  have 1: "xPosition s (filter (is_leaf ?ch) vs ! j) = Some (of_nat j)"
    if "j < length (filter (is_leaf ?ch) vs)" for j
    using tree_rel_leaf [OF t that] by (simp add: initial_pass_state_def)
  have 2: "set kids \<subseteq> set (vis l) \<and> xPosition s p = Some (mean_of_kids s kids)"
    if "p \<in> set (vis l)" "?ch p = Inr kids" "kids \<noteq> []" for p kids
  proof -
    from that(1) sv have p: "p \<in> set vs" by simp
    from visits_facts [OF v] have "closed_under ?ch (set vs)" by simp
    from closed_kids [OF this p that(2)] sv have "set kids \<subseteq> set (vis l)" by blast
    with tree_rel_mean [OF t p that(2,3)] show ?thesis by simp
  qed
  from s 1 2
  show "\<exists>s. firstPass n ?ch (root_id m) 0 initial_pass_state = Inr s \<and>
           (\<forall>j < length (filter (is_leaf ?ch) vs).
              xPosition s (filter (is_leaf ?ch) vs ! j) = Some (of_nat j)) \<and>
           (\<forall>p kids. p \<in> set (vis l) \<longrightarrow> ?ch p = Inr kids \<longrightarrow> kids \<noteq> [] \<longrightarrow>
              set kids \<subseteq> set (vis l) \<and> xPosition s p = Some (mean_of_kids s kids))"
    by blast
  qed
qed

theorem slots_assigned_witness:
  "(\<exists>s'. firstPass (Suc 0) (children_of {} tree_model) ''C'' 2 initial_pass_state = Inr s' \<and>
       xPosition s' ''C'' = Some 0 \<and> xPositionNext s' = 1) \<and>
   (\<exists>s' s2. firstPass (Suc 2) (children_of {} tree_model) ''R'' 0 initial_pass_state = Inr s' \<and>
       forEach (\<lambda>k. firstPass 2 (children_of {} tree_model) k (0 + 1)) [''A'', ''B'']
         (initial_pass_state\<lparr>depth := (depth initial_pass_state)(''R'' \<mapsto> 0)\<rparr>) = Inr s2 \<and>
       xPosition s2 ''A'' \<noteq> None \<and> xPosition s2 ''B'' \<noteq> None \<and>
       xPosition s' ''R'' = Some (mean_of_kids s2 [''A'', ''B''])) \<and>
   (\<exists>l s. layoutTree 3 {} tree_model = Inr l \<and>
       firstPass 3 (children_of {} tree_model) (root_id tree_model) 0 initial_pass_state = Inr s \<and>
       xPosition s ''C'' = Some 0 \<and> xPosition s ''B'' = Some 1 \<and>
       xPosition s ''A'' = Some (mean_of_kids s [''C'']) \<and>
       xPosition s ''R'' = Some (mean_of_kids s [''A'', ''B'']))"
proof -
  let ?ch = "children_of {} tree_model"
  have kc: "?ch ''C'' = Inr []" and kr: "?ch ''R'' = Inr [''A'', ''B'']" and ka: "?ch ''A'' = Inr [''C'']"
    by (simp_all add: tree_model_def children_eval)
  have "\<exists>s'. firstPass (Suc 0) ?ch ''C'' 2 initial_pass_state = Inr s'"
    by (simp add: kc)
  then obtain s1 where s1: "firstPass (Suc 0) ?ch ''C'' 2 initial_pass_state = Inr s1" ..
  from slots_assigned [of 0 ?ch "''C''" 2 initial_pass_state s1] s1 kc
  have 1: "xPosition s1 ''C'' = Some 0 \<and> xPositionNext s1 = 1"
    by (simp add: initial_pass_state_def)
  from layout_view_Inr [OF tree_layout] obtain l where l: "layoutTree 3 {} tree_model = Inr l"
    and v: "vis l = [''R'', ''A'', ''C'', ''B'']" by auto
  from layoutTree_Inr [OF l] obtain s where
    s: "firstPass 3 ?ch (root_id tree_model) 0 initial_pass_state = Inr s" by blast
  have r: "root_id tree_model = ''R''" by (simp add: tree_model_def)
  from s r have s3: "firstPass (Suc 2) ?ch ''R'' 0 initial_pass_state = Inr s"
    by (simp add: eval_nat_numeral)
  have ne: "[''A'', ''B''] \<noteq> []" by simp
  from slots_assigned [of 2 ?ch "''R''" 0 initial_pass_state s] s3 kr ne
  obtain s2 where
    2: "forEach (\<lambda>k. firstPass 2 ?ch k (0 + 1)) [''A'', ''B'']
         (initial_pass_state\<lparr>depth := (depth initial_pass_state)(''R'' \<mapsto> 0)\<rparr>) = Inr s2 \<and>
       (\<forall>k \<in> set [''A'', ''B'']. xPosition s2 k \<noteq> None) \<and>
       xPosition s ''R'' = Some (mean_of_kids s2 [''A'', ''B''])"
    by blast
  have d: "distinct [''C'', ''A'', ''B'', ''R'']" by simp
  from slots_assigned [of 3 _ _ _ _ _ "{}" tree_model l "[''C'', ''A'', ''B'', ''R'']"] l tree_visits d s
  have 3: "(\<forall>j < length (filter (is_leaf ?ch) [''C'', ''A'', ''B'', ''R'']).
              xPosition s (filter (is_leaf ?ch) [''C'', ''A'', ''B'', ''R''] ! j) = Some (of_nat j)) \<and>
           (\<forall>p kids. p \<in> set (vis l) \<longrightarrow> ?ch p = Inr kids \<longrightarrow> kids \<noteq> [] \<longrightarrow>
              set kids \<subseteq> set (vis l) \<and> xPosition s p = Some (mean_of_kids s kids))"
    by auto
  from 3 have lf: "\<forall>j < length [''C'', ''B'']. xPosition s ([''C'', ''B''] ! j) = Some (of_nat j)"
    unfolding tree_leaves by blast
  from lf [rule_format, of 0] lf [rule_format, of 1]
  have 4: "xPosition s ''C'' = Some 0" "xPosition s ''B'' = Some 1" by simp_all
  from 3 v ka kr have 5: "xPosition s ''A'' = Some (mean_of_kids s [''C''])"
    "xPosition s ''R'' = Some (mean_of_kids s [''A'', ''B''])" by simp_all
  from s1 1 s3 2 l s r 4 5 show ?thesis by auto
qed

text \<open>
  C2 (counterexample).  In the model of \<open>diamond_text\<close>, where \<open>L\<close> is a child of both
  \<open>A\<close> and \<open>B\<close>, the layout puts \<open>A\<close> at \<open>x = 0\<close> (slot 0) and its only visible child \<open>L\<close>
  at \<open>x = 166\<close> (slot 1): the second visit of \<open>L\<close> has overwritten the slot from which
  the slot of \<open>A\<close> was computed.
\<close>

theorem parent_slot_counterexample:
  "parse diamond_text = Ok diamond_model \<and>
   children_of {} diamond_model ''A'' = Inr [''L''] \<and>
   layout_view (layoutTree 3 {} diamond_model) =
     Inr ([''R'', ''A'', ''L'', ''B''], [Some (83, 0), Some (0, 126), Some (166, 252), Some (166, 126)])"
  by (simp add: parse_diamond_text) (simp add: diamond_model_def layout_eval)

subsection \<open>C3: collapsing\<close>

text \<open>
  C3 (amended).  In a model where no identifier is the child of two nodes and the root
  is the child of none, collapsing a visible node keeps it visible, with coordinates,
  and leaves no identifier below a collapsed node (the newly collapsed one or any
  other) in the visible set or in the coordinate map.
\<close>

theorem collapse_hides_descendants:
  assumes "single_parent (children_of {} m) (root_id m)"
    and "layoutTree n c m = Inr l" and "i \<in> set (vis l)"
  shows "\<exists>l'. layoutTree n (insert i c) m = Inr l' \<and> i \<in> set (vis l') \<and> coords l' i \<noteq> None \<and>
     (\<forall>a k. a \<in> insert i c \<longrightarrow> (a, k) \<in> (child_rel (children_of {} m))\<^sup>+ \<longrightarrow>
        k \<notin> set (vis l') \<and> coords l' k = None)"
proof -
  from layoutTree_pass [OF assms(2)] obtain vs where
    "visits n (children_of c m) (root_id m) = Inr vs" by blast
  from visits_collapse [OF this] obtain vs' where
    "visits n (children_of (insert i c) m) (root_id m) = Inr vs'" ..
  from visits_layoutTree [OF this] obtain l' where l': "layoutTree n (insert i c) m = Inr l'" ..
  note v = layoutTree_vis [OF assms(2)] and v' = layoutTree_vis [OF l']
  from assms(3) v(1) have "(root_id m, i) \<in> (child_rel (children_of c m))\<^sup>*" by simp
  from stays_visible [OF this] v'(1) have 1: "i \<in> set (vis l')" by simp
  with v'(3) have 2: "coords l' i \<noteq> None" by blast
  have 3: "k \<notin> set (vis l') \<and> coords l' k = None"
    if "a \<in> insert i c" "(a, k) \<in> (child_rel (children_of {} m))\<^sup>+" for a k
  proof -
    from hidden_below [OF assms(1) that] v'(1) have "k \<notin> set (vis l')" by simp
    with v'(3) show ?thesis by blast
  qed
  from l' 1 2 3 show ?thesis by blast
qed

theorem collapse_hides_descendants_witness:
  "single_parent (children_of {} tree_model) (root_id tree_model) \<and>
   (\<exists>l. layoutTree 3 {} tree_model = Inr l \<and> ''A'' \<in> set (vis l) \<and> ''C'' \<in> set (vis l)) \<and>
   (\<exists>l'. layoutTree 3 {''A''} tree_model = Inr l' \<and> ''A'' \<in> set (vis l') \<and> coords l' ''A'' \<noteq> None \<and>
      ''C'' \<notin> set (vis l') \<and> coords l' ''C'' = None)"
proof -
  have sp: "single_parent (children_of {} tree_model) (root_id tree_model)"
    unfolding single_parent_def tree_child_rel by (auto simp: tree_model_def)
  from layout_view_Inr [OF tree_layout] obtain l where l: "layoutTree 3 {} tree_model = Inr l"
    and v: "vis l = [''R'', ''A'', ''C'', ''B'']" by auto
  from v have a: "''A'' \<in> set (vis l)" and c: "''C'' \<in> set (vis l)" by simp_all
  have below: "(''A'', ''C'') \<in> (child_rel (children_of {} tree_model))\<^sup>+"
    by (rule r_into_trancl) (simp add: tree_child_rel)
  from collapse_hides_descendants [OF sp l a] below sp l a c show ?thesis by blast
qed

text \<open>
  C3 (counterexample).  In the model of \<open>diamond_text\<close>, with \<open>A\<close> collapsed, its child
  \<open>L\<close> is still in the visible set and has coordinates: it is reached through \<open>B\<close>.
\<close>

theorem collapse_counterexample:
  "parse diamond_text = Ok diamond_model \<and>
   children_of {} diamond_model ''A'' = Inr [''L''] \<and>
   layout_view (layoutTree 3 {''A''} diamond_model) =
     Inr ([''R'', ''A'', ''B'', ''L''], [Some (83, 0), Some (0, 126), Some (166, 126), Some (166, 252)])"
  by (simp add: parse_diamond_text) (simp add: diamond_model_def layout_eval)

subsection \<open>C4: the root\<close>

text \<open>
  C4 (the code fails the claim).  In the text \<open>node b "x"\<close>, \<open>node 1 "y"\<close> the first
  declared identifier is \<open>b\<close> and no identifier is the target of an edge, yet the root
  that \<open>parse\<close> chooses is \<open>1\<close>: \<open>Object.keys\<close> lists the array-index key first.
\<close>

theorem parse_numeric_id_root:
  "parse numeric_id_text =
     Ok \<lparr>nodes = [(''b'', \<lparr>node_id = ''b'', title = ''x'', children = []\<rparr>),
                  (''1'', \<lparr>node_id = ''1'', title = ''y'', children = []\<rparr>)],
         edges = [], root_id = ''1''\<rparr>"
  by (simp add: numeric_id_text_def parse_eval)

subsection \<open>C5: order of the errors\<close>



subsection \<open>C6: coordinates\<close>

text \<open>
  C6 (amended).  The identifiers with coordinates are exactly the visible ones; each
  has \<open>x = slot * (NODE_W + X_GAP)\<close> and \<open>y = depth * (NODE_H + Y_GAP)\<close> for the slot and
  depth that \<open>firstPass\<close> recorded last; the root has depth 0; and when the traversal
  visits no identifier twice, every visible child is one level below its parent.
\<close>

theorem layoutTree_coordinates:
  assumes "layoutTree n c m = Inr l"
  shows "\<exists>s vs. firstPass n (children_of c m) (root_id m) 0 initial_pass_state = Inr s \<and>
     visits n (children_of c m) (root_id m) = Inr vs \<and>
     dom (coords l) = set (vis l) \<and>
     (\<forall>i \<in> set (vis l). \<exists>x dp. xPosition s i = Some x \<and> depth s i = Some dp \<and>
        coords l i = Some (x * (NODE_W + X_GAP), of_nat dp * (NODE_H + Y_GAP))) \<and>
     depth s (root_id m) = Some 0 \<and>
     (distinct vs \<longrightarrow>
        (\<forall>p kids k. p \<in> set (vis l) \<longrightarrow> children_of c m p = Inr kids \<longrightarrow> k \<in> set kids \<longrightarrow>
           k \<in> set (vis l) \<and> (\<exists>dp. depth s p = Some dp \<and> depth s k = Some (Suc dp))))"
proof -
  let ?ch = "children_of c m"
  from layoutTree_pass [OF assms] obtain s vs where
    s: "firstPass n ?ch (root_id m) 0 initial_pass_state = Inr s" and
    v: "visits n ?ch (root_id m) = Inr vs" and
    p: "pass_rel ?ch initial_pass_state s vs" and
    sv: "set (vis l) = set vs" and
    k: "\<forall>k. coords l k = (if k \<in> set vs then Some (coord_of s k) else None)"
    by blast
  have 1: "dom (coords l) = set (vis l)" by (rule layoutTree_vis(3) [OF assms])
  have 2: "\<exists>x dp. xPosition s i = Some x \<and> depth s i = Some dp \<and>
        coords l i = Some (x * (NODE_W + X_GAP), of_nat dp * (NODE_H + Y_GAP))"
    if "i \<in> set (vis l)" for i
  proof -
    from that sv have i: "i \<in> set vs" by simp
    from pass_rel_inside [OF p i] obtain x dp where
      "xPosition s i = Some x" and "depth s i = Some dp" by auto
    with k i show ?thesis by (simp add: coord_of_def)
  qed
  have 3: "depth s (root_id m) = Some 0" by (rule firstPass_depth_self [OF s])
  have 4: "k \<in> set (vis l) \<and> (\<exists>dp. depth s p = Some dp \<and> depth s k = Some (Suc dp))"
    if d: "distinct vs" and pv: "p \<in> set (vis l)" and kids: "?ch p = Inr kids" and kk: "k \<in> set kids"
    for p kids k
  proof -
    from firstPass_tree [OF v d s] have t: "tree_rel ?ch initial_pass_state s vs" by simp
    from pv sv have pvs: "p \<in> set vs" by simp
    from visits_facts [OF v] have "closed_under ?ch (set vs)" by simp
    from closed_kids [OF this pvs kids kk] sv have "k \<in> set (vis l)" by simp
    with tree_rel_depth [OF t pvs kids kk] show ?thesis by simp
  qed
  from s v 1 2 3 4 show ?thesis by blast
qed

theorem layoutTree_coordinates_witness:
  "\<exists>l s. layoutTree 3 {} tree_model = Inr l \<and>
     firstPass 3 (children_of {} tree_model) (root_id tree_model) 0 initial_pass_state = Inr s \<and>
     distinct [''C'', ''A'', ''B'', ''R''] \<and>
     dom (coords l) = set (vis l) \<and>
     (\<forall>i \<in> set (vis l). \<exists>x dp. xPosition s i = Some x \<and> depth s i = Some dp \<and>
        coords l i = Some (x * (NODE_W + X_GAP), of_nat dp * (NODE_H + Y_GAP))) \<and>
     depth s (root_id tree_model) = Some 0 \<and>
     (\<forall>p kids k. p \<in> set (vis l) \<longrightarrow> children_of {} tree_model p = Inr kids \<longrightarrow> k \<in> set kids \<longrightarrow>
        k \<in> set (vis l) \<and> (\<exists>dp. depth s p = Some dp \<and> depth s k = Some (Suc dp)))"
proof -
  from layout_view_Inr [OF tree_layout] obtain l where l: "layoutTree 3 {} tree_model = Inr l"
    by blast
  have d: "distinct [''C'', ''A'', ''B'', ''R'']" by simp
  from layoutTree_coordinates [OF l] obtain s vs where
    s: "firstPass 3 (children_of {} tree_model) (root_id tree_model) 0 initial_pass_state = Inr s" and
    v: "visits 3 (children_of {} tree_model) (root_id tree_model) = Inr vs" and
    1: "dom (coords l) = set (vis l)" and
    2: "\<forall>i \<in> set (vis l). \<exists>x dp. xPosition s i = Some x \<and> depth s i = Some dp \<and>
        coords l i = Some (x * (NODE_W + X_GAP), of_nat dp * (NODE_H + Y_GAP))" and
    3: "depth s (root_id tree_model) = Some 0" and
    4: "distinct vs \<longrightarrow>
        (\<forall>p kids k. p \<in> set (vis l) \<longrightarrow> children_of {} tree_model p = Inr kids \<longrightarrow> k \<in> set kids \<longrightarrow>
           k \<in> set (vis l) \<and> (\<exists>dp. depth s p = Some dp \<and> depth s k = Some (Suc dp)))"
    by blast
  from v tree_visits have "vs = [''C'', ''A'', ''B'', ''R'']" by simp
  with 4 d have 5: "\<forall>p kids k. p \<in> set (vis l) \<longrightarrow> children_of {} tree_model p = Inr kids \<longrightarrow> k \<in> set kids \<longrightarrow>
           k \<in> set (vis l) \<and> (\<exists>dp. depth s p = Some dp \<and> depth s k = Some (Suc dp))"
    by blast
  from l s d 1 2 3 5 show ?thesis by blast
qed

text \<open>
  C6 (counterexample).  In the model of \<open>shortcut_text\<close>, \<open>C\<close> is a child of the root
  and of \<open>A\<close>.  The layout gives \<open>A\<close> and its visible child \<open>C\<close> the same \<open>y = 126\<close>
  (depth 1): the visit of \<open>C\<close> from the root came last.
\<close>

theorem child_depth_counterexample:
  "parse shortcut_text = Ok shortcut_model \<and>
   children_of {} shortcut_model ''A'' = Inr [''C''] \<and>
   layout_view (layoutTree 3 {} shortcut_model) =
     Inr ([''R'', ''A'', ''C''], [Some (83, 0), Some (0, 126), Some (166, 126)])"
  by (simp add: parse_shortcut_text) (simp add: shortcut_model_def layout_eval)

subsection \<open>C7: determinism\<close>

text \<open>
  C7.  Take two calls of \<open>parse\<close> on the same text, from any two stores: the second may
  be the store that the first call and whatever ran after it have left, with other
  objects in it and another current model.  Both return the same error, or both return
  a model, and the two models are the same: the same node table with the same child
  lists in the same order, the same edge list, the same root; it is the model that the
  function \<open>parse\<close> gives.  A call of \<open>parse\<close> adds one object and one array to the
  store and changes nothing that was there, so the models returned earlier and the
  collapsed set are as before.  When the collapsed sets of the two stores are equal,
  \<open>layoutTree\<close> on the two models gives the same result, with the same visible set
  and the same coordinate map, also when the two calls have stacks of different
  depths and both return.  In general \<open>layoutTree\<close> gives the same result in two
  stores whenever the model it is called on and the collapsed set are the same in
  both.
\<close>

theorem parse_layout_deterministic:
  assumes "parse_store t \<sigma> = (r, \<sigma>1)" and "parse_store t \<tau> = (r', \<tau>1)"
  shows "result_at \<sigma>1 r = result_at \<tau>1 r' \<and>
         result_at \<sigma>1 r = parse t \<and>
         extends \<sigma> \<sigma>1 \<and>
         (\<forall>g. nodes_ref g < length (objects \<sigma>) \<and> edges_ref g < length (arrays \<sigma>)
            \<longrightarrow> model_at \<sigma>1 g = model_at \<sigma> g) \<and>
         (\<forall>m m'. r = Ok m \<and> r' = Ok m' \<and> collapsed_set \<sigma> = collapsed_set \<tau> \<longrightarrow>
            layoutTree_store n m \<sigma>1 = layoutTree_store n m' \<tau>1 \<and>
            (\<forall>l l'. layoutTree_store n m \<sigma>1 = Inr l \<and> layoutTree_store n' m' \<tau>1 = Inr l'
               \<longrightarrow> l = l')) \<and>
         (model_at \<mu> k = model_at \<nu> k' \<and> collapsed_set \<mu> = collapsed_set \<nu>
            \<longrightarrow> layoutTree_store n k \<mu> = layoutTree_store n k' \<nu>)"
proof -
  from parse_store_spec [OF assms(1)] have
    1: "result_at \<sigma>1 r = parse t" and x: "extends \<sigma> \<sigma>1" by simp_all
  from parse_store_spec [OF assms(2)] have
    2: "result_at \<tau>1 r' = parse t" and y: "extends \<tau> \<tau>1" by simp_all
  have 3: "\<forall>g. nodes_ref g < length (objects \<sigma>) \<and> edges_ref g < length (arrays \<sigma>)
            \<longrightarrow> model_at \<sigma>1 g = model_at \<sigma> g"
    using extends_model_at [OF x] by blast
  have 4: "layoutTree_store n m \<sigma>1 = layoutTree_store n m' \<tau>1 \<and>
        (\<forall>l l'. layoutTree_store n m \<sigma>1 = Inr l \<and> layoutTree_store n' m' \<tau>1 = Inr l'
           \<longrightarrow> l = l')"
    if a: "r = Ok m \<and> r' = Ok m' \<and> collapsed_set \<sigma> = collapsed_set \<tau>" for m m'
  proof -
    from a 1 have "parse t = Ok (model_at \<sigma>1 m)" by (simp add: result_at_def)
    moreover from a 2 have "parse t = Ok (model_at \<tau>1 m')" by (simp add: result_at_def)
    ultimately have m: "model_at \<sigma>1 m = model_at \<tau>1 m'" by simp
    from a x y have c: "collapsed_set \<sigma>1 = collapsed_set \<tau>1"
      by (simp add: extends_def)
    from m c show ?thesis
      by (auto simp: layoutTree_store_eq dest: layoutTree_stack_independent)
  qed
  have 5: "model_at \<mu> k = model_at \<nu> k' \<and> collapsed_set \<mu> = collapsed_set \<nu>
            \<longrightarrow> layoutTree_store n k \<mu> = layoutTree_store n k' \<nu>"
    by (simp add: layoutTree_store_eq)
  from 1 2 x 3 4 5 show ?thesis by simp
qed

theorem parse_layout_deterministic_witness:
  "parse_store tree_text start_store =
     (Ok \<lparr>nodes_ref = 0, edges_ref = 0, root_ref = ''R''\<rparr>,
      start_store\<lparr>objects := [nodes tree_model], arrays := [edges tree_model]\<rparr>) \<and>
   parse_store tree_text
       (start_store\<lparr>objects := [nodes tree_model], arrays := [edges tree_model],
          current_model := Some \<lparr>nodes_ref = 0, edges_ref = 0, root_ref = ''R''\<rparr>\<rparr>) =
     (Ok \<lparr>nodes_ref = 1, edges_ref = 1, root_ref = ''R''\<rparr>,
      start_store\<lparr>objects := [nodes tree_model, nodes tree_model],
          arrays := [edges tree_model, edges tree_model],
          current_model := Some \<lparr>nodes_ref = 0, edges_ref = 0, root_ref = ''R''\<rparr>\<rparr>) \<and>
   (\<exists>l. layoutTree_store 3 \<lparr>nodes_ref = 0, edges_ref = 0, root_ref = ''R''\<rparr>
          (start_store\<lparr>objects := [nodes tree_model], arrays := [edges tree_model]\<rparr>) = Inr l \<and>
        layoutTree_store 4 \<lparr>nodes_ref = 1, edges_ref = 1, root_ref = ''R''\<rparr>
          (start_store\<lparr>objects := [nodes tree_model, nodes tree_model],
             arrays := [edges tree_model, edges tree_model],
             current_model := Some \<lparr>nodes_ref = 0, edges_ref = 0, root_ref = ''R''\<rparr>\<rparr>) = Inr l \<and>
        vis l = [''R'', ''A'', ''B''] \<and>
        map (coords l) (vis l) = [Some (83, 0), Some (0, 126), Some (166, 126)]) \<and>
   model_at (start_store\<lparr>objects := [nodes tree_model, nodes tree_model],
          arrays := [edges tree_model, edges tree_model],
          current_model := Some \<lparr>nodes_ref = 0, edges_ref = 0, root_ref = ''R''\<rparr>\<rparr>)
       \<lparr>nodes_ref = 0, edges_ref = 0, root_ref = ''R''\<rparr> = tree_model"
proof -
  let ?m1 = "\<lparr>nodes_ref = 0, edges_ref = 0, root_ref = ''R''\<rparr>"
  let ?m2 = "\<lparr>nodes_ref = 1, edges_ref = 1, root_ref = ''R''\<rparr>"
  let ?\<sigma>1 = "start_store\<lparr>objects := [nodes tree_model], arrays := [edges tree_model]\<rparr>"
  let ?\<tau> = "?\<sigma>1\<lparr>current_model := Some ?m1\<rparr>"
  let ?\<tau>1 = "start_store\<lparr>objects := [nodes tree_model, nodes tree_model],
          arrays := [edges tree_model, edges tree_model], current_model := Some ?m1\<rparr>"
  have root: "root_id tree_model = ''R''" by (simp add: tree_model_def)
  have p1: "parse_store tree_text start_store = (Ok ?m1, ?\<sigma>1)"
    using parse_store_Ok [OF parse_tree_text, of start_store]
    by (simp add: start_store_def root)
  have p2: "parse_store tree_text ?\<tau> = (Ok ?m2, ?\<tau>1)"
    using parse_store_Ok [OF parse_tree_text, of ?\<tau>]
    by (simp add: start_store_def root)
  have c: "collapsed_set start_store = collapsed_set ?\<tau>" by simp
  have "model_at ?\<sigma>1 ?m1 = tree_model" "collapsed_set ?\<sigma>1 = {''A''}"
    by (simp_all add: model_at_def start_store_def root)
  then have "layoutTree_store 3 ?m1 ?\<sigma>1 = layoutTree 3 {''A''} tree_model"
    by (simp add: layoutTree_store_eq)
  with layout_view_Inr [OF tree_collapsed_layout] obtain l where
    l: "layoutTree_store 3 ?m1 ?\<sigma>1 = Inr l" and v: "vis l = [''R'', ''A'', ''B'']" and
    xy: "map (coords l) (vis l) = [Some (83, 0), Some (0, 126), Some (166, 126)]"
    by auto
  from parse_layout_deterministic [OF p1 p2, where n = 3 and n' = 3] c
  have "layoutTree_store 3 ?m1 ?\<sigma>1 = layoutTree_store 3 ?m2 ?\<tau>1" by blast
  with l have "layoutTree_store 3 ?m2 ?\<tau>1 = Inr l" by simp
  then have l4: "layoutTree_store 4 ?m2 ?\<tau>1 = Inr l"
    using layoutTree_mono [of 3 _ _ l 4] by (simp add: layoutTree_store_eq)
  from parse_layout_deterministic [OF p2 p2]
  have "\<forall>g. nodes_ref g < length (objects ?\<tau>) \<and> edges_ref g < length (arrays ?\<tau>)
          \<longrightarrow> model_at ?\<tau>1 g = model_at ?\<tau> g"
    by blast
  from this [rule_format, of ?m1] have old: "model_at ?\<tau>1 ?m1 = tree_model"
    by (simp add: model_at_def start_store_def root)
  show ?thesis
    by (intro conjI exI [of _ l]) (rule p1 p2 l l4 v xy old)+
qed

subsection \<open>C8: chains\<close>



subsection \<open>C9: the collapse set after a failed parse\<close>

text \<open>
  C9.  When \<open>parse\<close> returns an error, \<open>onInput\<close> returns with the collapse set it was
  given, the error as status and an empty drawing: \<open>mergeCollapseState\<close> is not
  reached.  When \<open>parse\<close> returns a model and \<open>onInput\<close> returns, the collapse set
  is the one that \<open>mergeCollapseState\<close> leaves for the nodes of that model.
\<close>

theorem onInput_error_keeps_collapsed:
  "(parse text = Error e \<longrightarrow>
      (\<exists>st'. onInput accepted stack text st = Inr st' \<and> collapsed st' = collapsed st \<and>
            status st' = Some (False, ParseFailed e) \<and> svg st' = [])) \<and>
   (parse text = Ok m \<and> onInput accepted stack text st = Inr st' \<longrightarrow>
      collapsed st' = mergeCollapseState (collapsed st) (nodes m))"
proof (intro conjI impI)
  assume "parse text = Error e"
  then show "\<exists>st'. onInput accepted stack text st = Inr st' \<and> collapsed st' = collapsed st \<and>
            status st' = Some (False, ParseFailed e) \<and> svg st' = []"
    by (simp add: onInput_def saveSource_def)
next
  assume "parse text = Ok m \<and> onInput accepted stack text st = Inr st'"
  then show "collapsed st' = mergeCollapseState (collapsed st) (nodes m)"
    by (auto simp: onInput_def saveSource_def render_def Let_def split: sum.splits if_splits)
qed

lemma mergeCollapseState_tree:
  "mergeCollapseState {''A'', ''Z''} (nodes tree_model) = {''A''}"
  by (auto simp: mergeCollapseState_def tree_model_def lookup_def truthy_def object_prototype_keys_def
      split: if_splits)

lemma onInput_tree_text:
  "\<exists>st'. onInput True 3 tree_text (blank_state\<lparr>collapsed := {''A'', ''Z''}\<rparr>) = Inr st'"
  by (simp add: onInput_def saveSource_def parse_tree_text mergeCollapseState_tree blank_state_def)
    (simp add: render_def drawEdges_def drawNodes_def tree_model_def layout_eval)

theorem onInput_error_keeps_collapsed_witness:
  "parse ''nodeA'' = Error (UnknownDirective 1) \<and>
   (\<exists>st'. onInput True 5 ''nodeA'' (blank_state\<lparr>collapsed := {''A'', ''Z''}\<rparr>) = Inr st' \<and>
          collapsed st' = {''A'', ''Z''} \<and> status st' = Some (False, ParseFailed (UnknownDirective 1))) \<and>
   parse tree_text = Ok tree_model \<and>
   (\<exists>st'. onInput True 3 tree_text (blank_state\<lparr>collapsed := {''A'', ''Z''}\<rparr>) = Inr st' \<and>
          collapsed st' = {''A''})"
proof -
  let ?st = "blank_state\<lparr>collapsed := {''A'', ''Z''}\<rparr>"
  have p: "parse ''nodeA'' = Error (UnknownDirective 1)"
    by (simp add: parse_eval)
  from onInput_error_keeps_collapsed [of "''nodeA''" "UnknownDirective 1" True 5 ?st] p
  have 1: "\<exists>st'. onInput True 5 ''nodeA'' ?st = Inr st' \<and> collapsed st' = {''A'', ''Z''} \<and>
      status st' = Some (False, ParseFailed (UnknownDirective 1))"
    by auto
  from onInput_tree_text obtain st' where st': "onInput True 3 tree_text ?st = Inr st'" ..
  from onInput_error_keeps_collapsed [of tree_text _ True 3 ?st tree_model st'] parse_tree_text st'
  have "collapsed st' = mergeCollapseState (collapsed ?st) (nodes tree_model)" by blast
  then have "collapsed st' = {''A''}" by (simp add: mergeCollapseState_tree)
  with p 1 parse_tree_text st' show ?thesis by blast
qed

subsection \<open>C10: slots of the leaves of a tree\<close>

text \<open>
  C10.  When the traversal visits no identifier twice (no visible node is reachable
  along two paths), \<open>layoutTree\<close> returns, and the visible leaves, in the order in
  which the traversal reaches them, have the slots 0, 1, 2, ..., so two different
  visible leaves have different x coordinates.  Lemma \<open>tree_model_layout\<close> gives
  models for which the traversal is of that kind.
\<close>

theorem leaf_slots_consecutive:
  assumes "visits n (children_of c m) (root_id m) = Inr vs" and "distinct vs"
  shows "\<exists>l. layoutTree n c m = Inr l \<and>
     set (filter (is_leaf (children_of c m)) vs) = {i \<in> set (vis l). is_leaf (children_of c m) i} \<and>
     distinct (filter (is_leaf (children_of c m)) vs) \<and>
     (\<forall>j < length (filter (is_leaf (children_of c m)) vs).
        \<exists>y. coords l (filter (is_leaf (children_of c m)) vs ! j) = Some (of_nat j * (NODE_W + X_GAP), y)) \<and>
     (\<forall>a \<in> set (vis l). \<forall>b \<in> set (vis l).
        is_leaf (children_of c m) a \<longrightarrow> is_leaf (children_of c m) b \<longrightarrow> a \<noteq> b \<longrightarrow>
        fst (the (coords l a)) \<noteq> fst (the (coords l b)))"
proof -
  let ?ch = "children_of c m"
  let ?ls = "filter (is_leaf ?ch) vs"
  from visits_layoutTree [OF assms(1)] obtain l where l: "layoutTree n c m = Inr l" ..
  from layoutTree_pass [OF l] assms(1) obtain s where
    s: "firstPass n ?ch (root_id m) 0 initial_pass_state = Inr s" and
    sv: "set (vis l) = set vs" and
    k: "\<forall>k. coords l k = (if k \<in> set vs then Some (coord_of s k) else None)"
    by auto
  from firstPass_tree [OF assms(1,2) s] have t: "tree_rel ?ch initial_pass_state s vs" by simp
  have slot: "xPosition s (?ls ! j) = Some (of_nat j)" if "j < length ?ls" for j
    using tree_rel_leaf [OF t that] by (simp add: initial_pass_state_def)
  have x: "coords l (?ls ! j) = Some (of_nat j * (NODE_W + X_GAP), snd (coord_of s (?ls ! j)))"
    if "j < length ?ls" for j
  proof -
    from that have "?ls ! j \<in> set ?ls" by (rule nth_mem)
    then have "?ls ! j \<in> set vs" by simp
    with k slot [OF that] show ?thesis by (simp add: coord_of_def)
  qed
  have 1: "set ?ls = {i \<in> set (vis l). is_leaf ?ch i}" using sv by auto
  have 2: "distinct ?ls" using assms(2) by simp
  have 3: "\<forall>j < length ?ls. \<exists>y. coords l (?ls ! j) = Some (of_nat j * (NODE_W + X_GAP), y)"
    using x by blast
  have 4: "fst (the (coords l a)) \<noteq> fst (the (coords l b))"
    if a: "a \<in> set (vis l)" "is_leaf ?ch a" and b: "b \<in> set (vis l)" "is_leaf ?ch b" and ab: "a \<noteq> b"
    for a b
  proof -
    from a sv have "a \<in> set ?ls" by simp
    then obtain i where i: "i < length ?ls" "?ls ! i = a" unfolding in_set_conv_nth by blast
    from b sv have "b \<in> set ?ls" by simp
    then obtain j where j: "j < length ?ls" "?ls ! j = b" unfolding in_set_conv_nth by blast
    from i j ab have "i \<noteq> j" by auto
    with x [OF i(1)] x [OF j(1)] i(2) j(2) show ?thesis
      by (simp add: NODE_W_def X_GAP_def)
  qed
  from l 1 2 3 4 show ?thesis by blast
qed

theorem leaf_slots_consecutive_witness:
  "parse tree_text = Ok tree_model \<and>
   visits 3 (children_of {} tree_model) (root_id tree_model) = Inr [''C'', ''A'', ''B'', ''R''] \<and>
   (\<exists>l. layoutTree 3 {} tree_model = Inr l \<and>
     coords l ''C'' = Some (0, 252) \<and> coords l ''B'' = Some (166, 126) \<and>
     (\<forall>j < length [''C'', ''B'']. \<exists>y. coords l ([''C'', ''B''] ! j) = Some (of_nat j * (NODE_W + X_GAP), y)) \<and>
     (\<forall>a \<in> set (vis l). \<forall>b \<in> set (vis l).
        is_leaf (children_of {} tree_model) a \<longrightarrow> is_leaf (children_of {} tree_model) b \<longrightarrow> a \<noteq> b \<longrightarrow>
        fst (the (coords l a)) \<noteq> fst (the (coords l b))))"
proof -
  from layout_view_Inr [OF tree_layout] obtain l where l: "layoutTree 3 {} tree_model = Inr l"
    and v: "vis l = [''R'', ''A'', ''C'', ''B'']"
    and c: "map (coords l) (vis l) = [Some (83, 0), Some (0, 126), Some (0, 252), Some (166, 126)]"
    by auto
  have d: "distinct [''C'', ''A'', ''B'', ''R'']" by simp
  from c v have xy: "coords l ''C'' = Some (0, 252)" "coords l ''B'' = Some (166, 126)" by simp_all
  from leaf_slots_consecutive [OF tree_visits d, unfolded tree_leaves] obtain l' where
    l': "layoutTree 3 {} tree_model = Inr l'" and
    3: "\<forall>j < length [''C'', ''B'']. \<exists>y. coords l' ([''C'', ''B''] ! j) = Some (of_nat j * (NODE_W + X_GAP), y)" and
    4: "\<forall>a \<in> set (vis l'). \<forall>b \<in> set (vis l').
        is_leaf (children_of {} tree_model) a \<longrightarrow> is_leaf (children_of {} tree_model) b \<longrightarrow> a \<noteq> b \<longrightarrow>
        fst (the (coords l' a)) \<noteq> fst (the (coords l' b))"
    by blast
  from l l' have "l' = l" by simp
  with 3 4 l xy parse_tree_text tree_visits show ?thesis by blast
qed

end
